theory Spec2Isabelle
  imports Complex_Main "HOL-Library.Word" "HOL-Library.Multiset"
begin

unbundle bit_operations_syntax

section \<open>Shinonome: a shallow embedding of shinonome.cc\<close>

text \<open>
  The theory follows the functions of \<^verbatim>\<open>shinonome.cc\<close> one by one. Conventions:
  \<^item> \<^verbatim>\<open>double\<close> and \<^verbatim>\<open>float\<close> are modelled by \<open>real\<close>: rounding is not represented.
    An operation whose IEEE result is an infinity or a NaN (a division whose divisor is
    zero, a \<^verbatim>\<open>float\<close> product beyond \<^verbatim>\<open>FLT_MAX\<close>, the conversion of the texts
    \<^verbatim>\<open>inf\<close> and \<^verbatim>\<open>nan\<close>) ends the modelled run with \<open>NonFinite\<close>. The program
    itself raises nothing there and goes on with that value; a run that returns in the
    model has computed finite values only.
  \<^item> \<^verbatim>\<open>int\<close> is modelled by \<open>int\<close>; the products, sums and quotients of the scoring
    formulas are checked against the 32-bit range (signed overflow and division by zero
    are undefined behaviour in C++ and end the modelled run with a fault). Counters that
    only move by \<^verbatim>\<open>++\<close> are not range-checked.
  \<^item> fixed-size arrays are functions on indices; an index outside the array ends the run
    with \<open>PastTheEnd\<close>. Vectors are lists; an iterator is an index into its list and a
    dereference outside the list is \<open>PastTheEnd\<close>; \<^verbatim>\<open>vector::at\<close> outside the list is
    \<open>OutOfRange\<close> (the exception is never caught, the process terminates).
  \<^item> objects passed by reference are passed in and returned.
\<close>

datatype fault =
    DivideByZero
  | SignedOverflow
  | PastTheEnd
  | OutOfRange
  | InvalidArgument
  | NonFinite

definition bindF :: "fault + 'a \<Rightarrow> ('a \<Rightarrow> fault + 'b) \<Rightarrow> fault + 'b" where
  "bindF m f = (case m of Inl e \<Rightarrow> Inl e | Inr x \<Rightarrow> f x)"

subsection \<open>Constants and C arithmetic\<close>

definition INT_MAX :: int where
  "INT_MAX = 2147483647"

definition LANES_COUNT :: nat where
  "LANES_COUNT = 8"

definition LIFETIME_BEATS :: real where
  "LIFETIME_BEATS = 5"

definition JUDGE_BORDER_COOL :: real where
  "JUDGE_BORDER_COOL = 0.025"

definition JUDGE_BORDER_GREAT :: real where
  "JUDGE_BORDER_GREAT = 0.050"

definition JUDGE_BORDER_GOOD :: real where
  "JUDGE_BORDER_GOOD = 0.100"

definition JUDGE_PHASES :: nat where
  "JUDGE_PHASES = 4"

definition MAX_SPEED :: real where
  "MAX_SPEED = 5"

definition int_range :: "int \<Rightarrow> bool" where
  "int_range x \<longleftrightarrow> - 2147483648 \<le> x \<and> x \<le> 2147483647"

text \<open>Integer division of C++: the quotient is truncated towards zero.\<close>

definition c_div :: "int \<Rightarrow> int \<Rightarrow> int" where
  "c_div a b = sgn a * sgn b * (\<bar>a\<bar> div \<bar>b\<bar>)"

text \<open>Conversion of a \<^verbatim>\<open>double\<close> to \<^verbatim>\<open>int\<close>: the fraction is discarded.\<close>

definition double_to_int :: "real \<Rightarrow> int" where
  "double_to_int x = (if x < 0 then \<lceil>x\<rceil> else \<lfloor>x\<rfloor>)"

subsection \<open>Score\<close>

record Score =
  judges :: "nat \<Rightarrow> int"
  combo :: int
  comboBonus :: int
  maxCombo :: int
  point :: int
  totalJudges :: int
  totalNotes :: int

text \<open>\<^verbatim>\<open>Score score = {}\<close>: every member is zero.\<close>

definition Score_zero :: Score where
  "Score_zero = \<lparr>judges = (\<lambda>_. 0), combo = 0, comboBonus = 0, maxCombo = 0, point = 0,
     totalJudges = 0, totalNotes = 0\<rparr>"

text \<open>
  \<^verbatim>\<open>score.comboBonus = 1250 * (c * c - (c - 10) * p + 19 * c - 110) / (2 * t - 11)\<close>.
  The list holds every intermediate value of the \<^verbatim>\<open>int\<close> expression.
\<close>

definition comboBonus :: "Score \<Rightarrow> fault + Score" where
  "comboBonus score =
     (let c = combo score;
          p = (if c - 11 < 0 then - (c - 11) else c - 11);
          t = totalNotes score;
          n = c * c - (c - 10) * p + 19 * c - 110
      in if \<not> list_all int_range
             [c - 11, p, c * c, c - 10, (c - 10) * p, c * c - (c - 10) * p, 19 * c,
              c * c - (c - 10) * p + 19 * c, n, 1250 * n, 2 * t, 2 * t - 11]
         then Inl SignedOverflow
         else if 2 * t - 11 = 0 then Inl DivideByZero
         else if \<not> int_range (c_div (1250 * n) (2 * t - 11)) then Inl SignedOverflow
         else Inr (score\<lparr>Score.comboBonus := c_div (1250 * n) (2 * t - 11)\<rparr>))"

definition comboCount :: "Score \<Rightarrow> fault + Score" where
  "comboCount score =
     (let score1 = (if maxCombo score < combo score
                    then score\<lparr>maxCombo := combo score\<rparr> else score)
      in bindF (comboBonus score1) (\<lambda>score2. Inr (score2\<lparr>combo := 0\<rparr>)))"

definition calculate :: "Score \<Rightarrow> int \<Rightarrow> fault + Score" where
  "calculate score judge =
     (if judge - 1 < 0 \<or> int JUDGE_PHASES \<le> judge - 1 then Inl PastTheEnd
      else Inr (score\<lparr>judges := (judges score)
                          (nat (judge - 1) := judges score (nat (judge - 1)) + 1),
                       combo := combo score + 1,
                       totalJudges := totalJudges score + 1\<rparr>))"

definition calcReset :: "Score \<Rightarrow> fault + Score" where
  "calcReset score =
     bindF (comboCount (score\<lparr>judges := (judges score)
                                 (JUDGE_PHASES - 1 := judges score (JUDGE_PHASES - 1) + 1)\<rparr>))
       (\<lambda>score1. Inr (score1\<lparr>totalJudges := totalJudges score1 + 1\<rparr>))"

text \<open>
  \<^verbatim>\<open>score.point = (75000 * j[0] / t) + ((50000 * j[1] + 10000 * j[2]) / t) + c\<close>.
\<close>

definition scoreCount :: "Score \<Rightarrow> fault + Score" where
  "scoreCount score =
     (let j = judges score;
          t = totalNotes score;
          c = Score.comboBonus score
      in if \<not> list_all int_range
             [75000 * j 0, 50000 * j 1, 10000 * j 2, 50000 * j 1 + 10000 * j 2]
         then Inl SignedOverflow
         else if t = 0 then Inl DivideByZero
         else if \<not> list_all int_range
             [c_div (75000 * j 0) t, c_div (50000 * j 1 + 10000 * j 2) t,
              c_div (75000 * j 0) t + c_div (50000 * j 1 + 10000 * j 2) t,
              c_div (75000 * j 0) t + c_div (50000 * j 1 + 10000 * j 2) t + c]
         then Inl SignedOverflow
         else Inr (score\<lparr>point :=
                 c_div (75000 * j 0) t + c_div (50000 * j 1 + 10000 * j 2) t + c\<rparr>))"

text \<open>
  The bonus of one combo reset as the specification writes it, for a combo \<open>c\<close> and
  \<open>t\<close> notes: \<open>1250 * (c\<^sup>2 - (c - 10) * |c - 11| + 19 * c - 110) / (2 * t - 11)\<close>, truncated.
\<close>

definition bonus_numer :: "int \<Rightarrow> int" where
  "bonus_numer c = c * c - (c - 10) * \<bar>c - 11\<bar> + 19 * c - 110"

definition bonus_of :: "int \<Rightarrow> int \<Rightarrow> int" where
  "bonus_of c t = c_div (1250 * bonus_numer c) (2 * t - 11)"

subsection \<open>Chart data\<close>

record Chip =
  beat :: real
  beat2 :: real
  "value" :: real

record Segment =
  time :: real
  beat :: real
  velocity :: real
  bpm :: real

text \<open>
  \<^verbatim>\<open>struct BMS\<close>. The members \<^verbatim>\<open>title\<close>, \<^verbatim>\<open>artist\<close>, \<^verbatim>\<open>genre\<close>, \<^verbatim>\<open>level\<close>,
  \<^verbatim>\<open>chunkTable\<close> and \<^verbatim>\<open>basePath\<close> are left out: nothing modelled here reads them.
  \<^verbatim>\<open>beats\<close> has 1000 entries, \<^verbatim>\<open>bpmTable\<close> and \<^verbatim>\<open>stopTable\<close> 1296, \<^verbatim>\<open>lanes\<close> 8.
\<close>

record BMS =
  lnobj :: string
  beats :: "nat \<Rightarrow> real"
  bpmTable :: "nat \<Rightarrow> real"
  stopTable :: "nat \<Rightarrow> real"
  bgms :: "Chip list"
  bpms :: "Chip list"
  lanes :: "nat \<Rightarrow> Chip list"
  segments :: "Segment list"
  totalNotes :: int

definition BEATS_SIZE :: nat where
  "BEATS_SIZE = 1000"

definition TABLE_SIZE :: nat where
  "TABLE_SIZE = 1296"

text \<open>\<^verbatim>\<open>BMS bms = {}\<close>.\<close>

definition BMS_zero :: BMS where
  "BMS_zero = \<lparr>lnobj = [], beats = (\<lambda>_. 0), bpmTable = (\<lambda>_. 0), stopTable = (\<lambda>_. 0),
     bgms = [], bpms = [], lanes = (\<lambda>_. []), segments = [], totalNotes = 0\<rparr>"

subsection \<open>Characters, regular expressions and number conversion\<close>

definition is_digit :: "char \<Rightarrow> bool" where
  "is_digit c \<longleftrightarrow> 48 \<le> (of_char c :: nat) \<and> (of_char c :: nat) \<le> 57"

definition is_upper :: "char \<Rightarrow> bool" where
  "is_upper c \<longleftrightarrow> 65 \<le> (of_char c :: nat) \<and> (of_char c :: nat) \<le> 90"

definition is_lower :: "char \<Rightarrow> bool" where
  "is_lower c \<longleftrightarrow> 97 \<le> (of_char c :: nat) \<and> (of_char c :: nat) \<le> 122"

text \<open>The class \<^verbatim>\<open>\w\<close> of the regular expressions, in the C locale.\<close>

definition is_word :: "char \<Rightarrow> bool" where
  "is_word c \<longleftrightarrow> is_digit c \<or> is_upper c \<or> is_lower c \<or> c = CHR ''_''"

text \<open>\<^verbatim>\<open>isspace\<close>: space, and the control characters 9 to 13.\<close>

definition is_space :: "char \<Rightarrow> bool" where
  "is_space c \<longleftrightarrow> (of_char c :: nat) = 32 \<or> (9 \<le> (of_char c :: nat) \<and> (of_char c :: nat) \<le> 13)"

definition CR :: char where
  "CR = CHR 0x0D"

definition LF :: char where
  "LF = CHR 0x0A"

text \<open>The optional \<^verbatim>\<open>\r?\<close> at the end of each pattern, whose last class never holds CR.\<close>

definition chomp_cr :: "string \<Rightarrow> string" where
  "chomp_cr s = (if s \<noteq> [] \<and> last s = CR then butlast s else s)"

text \<open>\<^verbatim>\<open>#(\d{3})02:([.0-9]+)\r?\<close> matched against the whole line.\<close>

definition match_measure :: "string \<Rightarrow> (string \<times> string) option" where
  "match_measure line =
     (let m1 = take 3 (drop 1 line);
          m2 = chomp_cr (drop 7 line)
      in if take 1 line = ''#'' \<and> length m1 = 3 \<and> list_all is_digit m1
            \<and> take 3 (drop 4 line) = ''02:''
            \<and> m2 \<noteq> [] \<and> list_all (\<lambda>c. c = CHR ''.'' \<or> is_digit c) m2
         then Some (m1, m2) else None)"

text \<open>
  \<^verbatim>\<open>#(\w+)\ (.+)\r?\<close>: the first group is the longest run of word characters, since
  a space has to follow it; \<^verbatim>\<open>.\<close> matches every character but CR and LF.
\<close>

definition match_command :: "string \<Rightarrow> (string \<times> string) option" where
  "match_command line =
     (let m1 = takeWhile is_word (drop 1 line);
          rest = drop (1 + length m1) line;
          m2 = chomp_cr (drop 1 rest)
      in if take 1 line = ''#'' \<and> m1 \<noteq> [] \<and> take 1 rest = '' ''
            \<and> m2 \<noteq> [] \<and> list_all (\<lambda>c. c \<noteq> CR \<and> c \<noteq> LF) m2
         then Some (m1, m2) else None)"

text \<open>\<^verbatim>\<open>#(\d{3})(\d{2}):(\w+)\r?\<close>.\<close>

definition match_channel :: "string \<Rightarrow> (string \<times> string \<times> string) option" where
  "match_channel line =
     (let m1 = take 3 (drop 1 line);
          m2 = take 2 (drop 4 line);
          m3 = chomp_cr (drop 7 line)
      in if take 1 line = ''#'' \<and> length m1 = 3 \<and> list_all is_digit m1
            \<and> length m2 = 2 \<and> list_all is_digit m2
            \<and> take 1 (drop 6 line) = '':''
            \<and> m3 \<noteq> [] \<and> list_all is_word m3
         then Some (m1, m2, m3) else None)"

text \<open>
  \<^verbatim>\<open>(\w+)(\w{2})\<close> on a string of word characters: the last two characters are the
  second group, and at least one character is left for the first.
\<close>

definition match_key :: "string \<Rightarrow> (string \<times> string) option" where
  "match_key str =
     (if 3 \<le> length str \<and> list_all is_word str
      then Some (take (length str - 2) str, drop (length str - 2) str) else None)"

definition digit_val :: "char \<Rightarrow> nat" where
  "digit_val c =
     (if is_digit c then (of_char c :: nat) - 48
      else if is_lower c then (of_char c :: nat) - 87
      else if is_upper c then (of_char c :: nat) - 55
      else 36)"

definition digits_val :: "nat \<Rightarrow> string \<Rightarrow> nat" where
  "digits_val base ds = foldl (\<lambda>a c. a * base + digit_val c) 0 ds"

text \<open>
  \<^verbatim>\<open>std::stoi(str, NULL, base)\<close>, that is \<^verbatim>\<open>strtol\<close>: white space, a sign, for base 16
  the prefix \<^verbatim>\<open>0x\<close>, then the longest run of digits of the base. No digit:
  \<^verbatim>\<open>std::invalid_argument\<close>; a value outside \<^verbatim>\<open>int\<close>: \<^verbatim>\<open>std::out_of_range\<close>.
\<close>

definition stoi :: "string \<Rightarrow> nat \<Rightarrow> fault + int" where
  "stoi str base =
     (let s1 = dropWhile is_space str;
          s2 = (if take 1 s1 = ''-'' \<or> take 1 s1 = ''+'' then drop 1 s1 else s1);
          s3 = (if base = 16 \<and> (take 2 s2 = ''0x'' \<or> take 2 s2 = ''0X'')
                   \<and> list_all (\<lambda>c. digit_val c < 16) (take 1 (drop 2 s2)) \<and> drop 2 s2 \<noteq> []
                then drop 2 s2 else s2);
          ds = takeWhile (\<lambda>c. digit_val c < base) s3;
          v = (if take 1 s1 = ''-'' then - int (digits_val base ds) else int (digits_val base ds))
      in if ds = [] then Inl InvalidArgument
         else if \<not> int_range v then Inl OutOfRange
         else Inr v)"

definition to_lower :: "char \<Rightarrow> char" where
  "to_lower c = (if is_upper c then char_of ((of_char c :: nat) + 32) else c)"

text \<open>
  \<^verbatim>\<open>std::stof\<close>, that is \<^verbatim>\<open>strtof\<close>: white space, a sign, then the longest prefix that
  is a number. A decimal number has digits with an optional point and an optional
  exponent \<^verbatim>\<open>e\<close>; a hexadecimal number has \<^verbatim>\<open>0x\<close>, hexadecimal digits with an optional
  point and an optional binary exponent \<^verbatim>\<open>p\<close>. An exponent without digits is not part
  of the number, and \<^verbatim>\<open>0x\<close> without a hexadecimal digit is the number 0. No number:
  \<^verbatim>\<open>std::invalid_argument\<close>. \<^verbatim>\<open>strtof\<close> reports a range error, and \<^verbatim>\<open>std::stof\<close>
  throws \<^verbatim>\<open>std::out_of_range\<close>, for a value beyond \<^verbatim>\<open>FLT_MAX\<close> and for one below
  \<^verbatim>\<open>FLT_MIN\<close> that is not zero and not a multiple of the least \<^verbatim>\<open>float\<close> \<open>2\<^sup>-\<^sup>1\<^sup>4\<^sup>9\<close>.
  The texts \<^verbatim>\<open>inf\<close> and \<^verbatim>\<open>nan\<close> convert to an infinity and a NaN (\<open>NonFinite\<close>).
  The value returned is the real number the text denotes; its rounding to the nearest
  \<^verbatim>\<open>float\<close> is not represented.
\<close>

definition FLT_MAX :: real where
  "FLT_MAX = 340282346638528859811704183484516925440"

definition FLT_MIN :: real where
  "FLT_MIN = 1 / 2 ^ 126"

definition float_range :: "real \<Rightarrow> bool" where
  "float_range v \<longleftrightarrow>
     \<bar>v\<bar> \<le> FLT_MAX \<and> (v = 0 \<or> FLT_MIN \<le> \<bar>v\<bar> \<or> v * 2 ^ 149 \<in> \<int>)"

definition decimal_digits :: "string \<Rightarrow> bool" where
  "decimal_digits s \<longleftrightarrow>
     takeWhile is_digit s \<noteq> []
     \<or> (take 1 (drop (length (takeWhile is_digit s)) s) = ''.''
         \<and> takeWhile is_digit (drop (1 + length (takeWhile is_digit s)) s) \<noteq> [])"

definition decimal_value :: "string \<Rightarrow> real" where
  "decimal_value s =
     (let ip = takeWhile is_digit s;
          r1 = drop (length ip) s;
          fp = (if take 1 r1 = ''.'' then takeWhile is_digit (drop 1 r1) else []);
          r2 = (if take 1 r1 = ''.'' then drop (1 + length fp) r1 else r1);
          r3 = (if take 1 r2 = ''e'' \<or> take 1 r2 = ''E'' then drop 1 r2 else []);
          r4 = (if take 1 r3 = ''-'' \<or> take 1 r3 = ''+'' then drop 1 r3 else r3);
          ep = takeWhile is_digit r4;
          m = real (digits_val 10 ip) + real (digits_val 10 fp) / 10 ^ length fp
      in if take 1 r3 = ''-'' then m / 10 ^ digits_val 10 ep else m * 10 ^ digits_val 10 ep)"

definition is_xdigit :: "char \<Rightarrow> bool" where
  "is_xdigit c \<longleftrightarrow> digit_val c < 16"

definition hex_digits :: "string \<Rightarrow> bool" where
  "hex_digits s \<longleftrightarrow>
     takeWhile is_xdigit s \<noteq> []
     \<or> (take 1 (drop (length (takeWhile is_xdigit s)) s) = ''.''
         \<and> takeWhile is_xdigit (drop (1 + length (takeWhile is_xdigit s)) s) \<noteq> [])"

definition hex_value :: "string \<Rightarrow> real" where
  "hex_value s =
     (let ip = takeWhile is_xdigit s;
          r1 = drop (length ip) s;
          fp = (if take 1 r1 = ''.'' then takeWhile is_xdigit (drop 1 r1) else []);
          r2 = (if take 1 r1 = ''.'' then drop (1 + length fp) r1 else r1);
          r3 = (if take 1 r2 = ''p'' \<or> take 1 r2 = ''P'' then drop 1 r2 else []);
          r4 = (if take 1 r3 = ''-'' \<or> take 1 r3 = ''+'' then drop 1 r3 else r3);
          ep = takeWhile is_digit r4;
          m = real (digits_val 16 ip) + real (digits_val 16 fp) / 16 ^ length fp
      in if take 1 r3 = ''-'' then m / 2 ^ digits_val 10 ep else m * 2 ^ digits_val 10 ep)"

definition stof :: "string \<Rightarrow> fault + real" where
  "stof str =
     (let s1 = dropWhile is_space str;
          s2 = (if take 1 s1 = ''-'' \<or> take 1 s1 = ''+'' then drop 1 s1 else s1);
          hex = (map to_lower (take 2 s2) = ''0x'' \<and> hex_digits (drop 2 s2));
          v = (if hex then hex_value (drop 2 s2) else decimal_value s2)
      in if map to_lower (take 3 s2) = ''inf'' \<or> map to_lower (take 3 s2) = ''nan''
         then Inl NonFinite
         else if \<not> hex \<and> \<not> decimal_digits s2 then Inl InvalidArgument
         else if \<not> float_range v then Inl OutOfRange
         else Inr (if take 1 s1 = ''-'' then - v else v))"

subsection \<open>Chart parser\<close>

text \<open>
  \<^verbatim>\<open>bms.beats[std::stoi(m[1])] = std::stof(m[2]) * 4\<close>. The index has three decimal
  digits, so it is inside the array. The product is a \<^verbatim>\<open>float\<close>: beyond \<^verbatim>\<open>FLT_MAX\<close>
  it is \<^verbatim>\<open>+inf\<close>, which the program stores as the beat length.
\<close>

definition parseBMSMeasure :: "BMS \<Rightarrow> string \<Rightarrow> fault + BMS" where
  "parseBMSMeasure bms line =
     (case match_measure line of
        None \<Rightarrow> Inr bms
      | Some (m1, m2) \<Rightarrow>
          bindF (stof m2) (\<lambda>x.
            if FLT_MAX < x * 4 then Inl NonFinite
            else
              bindF (stoi m1 10) (\<lambda>k.
                if k < 0 \<or> int BEATS_SIZE \<le> k then Inl PastTheEnd
                else Inr (bms\<lparr>beats := (beats bms)(nat k := x * 4)\<rparr>))))"

text \<open>\<^verbatim>\<open>while (chips.at(i).beat <= beat) i++;\<close>\<close>

function calcChip_scan :: "Chip list \<Rightarrow> nat \<Rightarrow> real \<Rightarrow> fault + nat" where
  "calcChip_scan chips i b =
     (if length chips \<le> i then Inl OutOfRange
      else if Chip.beat (chips ! i) \<le> b then calcChip_scan chips (Suc i) b
      else Inr i)"
  by pat_completeness auto
termination
  by (relation "measure (\<lambda>(chips, i, b). length chips - i)") auto

text \<open>\<^verbatim>\<open>chips.insert(chips.cbegin() + i, chip)\<close>\<close>

definition insert_at :: "Chip list \<Rightarrow> nat \<Rightarrow> Chip \<Rightarrow> Chip list" where
  "insert_at chips i chip = take i chips @ chip # drop i chips"

definition table_at :: "(nat \<Rightarrow> real) \<Rightarrow> int \<Rightarrow> fault + real" where
  "table_at table k = (if k < 0 \<or> int TABLE_SIZE \<le> k then Inl PastTheEnd else Inr (table (nat k)))"

definition note_channel :: "int \<Rightarrow> bool" where
  "note_channel channel \<longleftrightarrow> (11 \<le> channel \<and> channel \<le> 16) \<or> (18 \<le> channel \<and> channel \<le> 19)"

definition long_channel :: "int \<Rightarrow> bool" where
  "long_channel channel \<longleftrightarrow> (51 \<le> channel \<and> channel \<le> 56) \<or> (58 \<le> channel \<and> channel \<le> 59)"

text \<open>
  One round of the \<^verbatim>\<open>for\<close> loop of \<^verbatim>\<open>calcChip\<close>, for the token at index \<open>c\<close>. The
  loop carries the vector, the position \<open>i\<close> and \<^verbatim>\<open>bms.totalNotes\<close>.
\<close>

definition calcChip_token ::
  "BMS \<Rightarrow> nat \<Rightarrow> string \<Rightarrow> int \<Rightarrow> real \<Rightarrow> nat \<Rightarrow> nat \<Rightarrow> Chip list \<times> nat \<times> int
     \<Rightarrow> fault + Chip list \<times> nat \<times> int" where
  "calcChip_token bms measure_no notation channel init_beat len c st =
     (case st of (chips, i0, notes) \<Rightarrow>
      let str = take 2 (drop (c * 2) notation) in
      if str = ''00'' then Inr st
      else if BEATS_SIZE \<le> measure_no then Inl PastTheEnd
      else
        let b = init_beat + real c * beats bms measure_no / real len in
        bindF (calcChip_scan chips i0 b) (\<lambda>i.
          if channel = 1 then
            bindF (stoi str 36) (\<lambda>v.
              Inr (insert_at chips i \<lparr>Chip.beat = b, beat2 = 0, value = real_of_int v\<rparr>, i, notes))
          else if channel = 3 then
            bindF (stoi str 16) (\<lambda>v.
              Inr (insert_at chips i \<lparr>Chip.beat = b, beat2 = 0, value = real_of_int v\<rparr>, i, notes))
          else if channel = 8 then
            bindF (stoi str 36) (\<lambda>k. bindF (table_at (bpmTable bms) k) (\<lambda>v.
              Inr (insert_at chips i \<lparr>Chip.beat = b, beat2 = 0, value = v\<rparr>, i, notes)))
          else if channel = 9 then
            bindF (stoi str 36) (\<lambda>k. bindF (table_at (stopTable bms) k) (\<lambda>v.
              Inr (insert_at chips i \<lparr>Chip.beat = b, beat2 = v, value = 0\<rparr>, i, notes)))
          else if note_channel channel then
            (if i \<noteq> 0 \<and> str = lnobj bms then
               Inr (chips[i - 1 := (chips ! (i - 1))\<lparr>beat2 := b\<rparr>], i, notes)
             else
               bindF (stoi str 36) (\<lambda>v.
                 Inr (insert_at chips i \<lparr>Chip.beat = b, beat2 = 0, value = real_of_int v\<rparr>,
                      i, notes + 1)))
          else if long_channel channel then
            (if i \<noteq> 0 \<and> beat2 (chips ! (i - 1)) < 0 then
               Inr (chips[i - 1 := (chips ! (i - 1))\<lparr>beat2 := b\<rparr>], i, notes)
             else
               bindF (stoi str 36) (\<lambda>v.
                 Inr (insert_at chips i \<lparr>Chip.beat = b, beat2 = - 1, value = real_of_int v\<rparr>,
                      i, notes + 1)))
          else Inr (chips, i, notes)))"

fun calcChip_loop ::
  "BMS \<Rightarrow> nat \<Rightarrow> string \<Rightarrow> int \<Rightarrow> real \<Rightarrow> nat \<Rightarrow> nat list \<Rightarrow> Chip list \<times> nat \<times> int
     \<Rightarrow> fault + Chip list \<times> nat \<times> int" where
  "calcChip_loop bms measure_no notation channel init_beat len [] st = Inr st"
| "calcChip_loop bms measure_no notation channel init_beat len (c # cs) st =
     bindF (calcChip_token bms measure_no notation channel init_beat len c st)
       (calcChip_loop bms measure_no notation channel init_beat len cs)"

text \<open>
  \<^verbatim>\<open>calcChip(chips, measure, notation, bms, channel)\<close> (the measure is \<open>measure_no\<close> here). \<^verbatim>\<open>chips\<close> is a reference to one
  of the vectors of \<^verbatim>\<open>bms\<close>; the new vector is returned beside \<^verbatim>\<open>bms\<close>, whose
  \<^verbatim>\<open>totalNotes\<close> is updated, and the caller stores the vector back.
\<close>

definition calcChip :: "Chip list \<Rightarrow> nat \<Rightarrow> string \<Rightarrow> BMS \<Rightarrow> int \<Rightarrow> fault + Chip list \<times> BMS" where
  "calcChip chips measure_no notation bms channel =
     (let len = length notation div 2 in
      if BEATS_SIZE < measure_no then Inl PastTheEnd
      else
        let init_beat = sum_list (map (beats bms) [0..<measure_no]) in
        bindF (calcChip_loop bms measure_no notation channel init_beat len [0..<len]
                 (chips, 0, BMS.totalNotes bms))
          (\<lambda>(chips1, i, notes). Inr (chips1, bms\<lparr>BMS.totalNotes := notes\<rparr>)))"

definition lane_index :: "int \<Rightarrow> int \<Rightarrow> int" where
  "lane_index channel base =
     (let c0 = 0;
          c1 = (if channel \<le> base + 5 then channel - base else c0);
          c2 = (if channel \<ge> base + 8 then channel - (base + 2) else c1)
      in c2)"

definition parseBMSChannel :: "BMS \<Rightarrow> string \<Rightarrow> fault + BMS" where
  "parseBMSChannel bms line =
     (case match_channel line of
        None \<Rightarrow> Inr bms
      | Some (m1, m2, m3) \<Rightarrow>
          bindF (stoi m2 10) (\<lambda>channel.
            if channel = 1 then
              bindF (stoi m1 10) (\<lambda>measure.
              bindF (calcChip (bgms bms) (nat measure) m3 bms channel) (\<lambda>(chips, bms1).
                Inr (bms1\<lparr>bgms := chips\<rparr>)))
            else if channel = 3 \<or> (8 \<le> channel \<and> channel \<le> 9) then
              bindF (stoi m1 10) (\<lambda>measure.
              bindF (calcChip (bpms bms) (nat measure) m3 bms channel) (\<lambda>(chips, bms1).
                Inr (bms1\<lparr>bpms := chips\<rparr>)))
            else if note_channel channel then
              (let c = nat (lane_index channel 10) in
               bindF (stoi m1 10) (\<lambda>measure.
               bindF (calcChip (BMS.lanes bms c) (nat measure) m3 bms channel) (\<lambda>(chips, bms1).
                 Inr (bms1\<lparr>BMS.lanes := (BMS.lanes bms1)(c := chips)\<rparr>))))
            else if long_channel channel then
              (let c = nat (lane_index channel 50) in
               bindF (stoi m1 10) (\<lambda>measure.
               bindF (calcChip (BMS.lanes bms c) (nat measure) m3 bms channel) (\<lambda>(chips, bms1).
                 Inr (bms1\<lparr>BMS.lanes := (BMS.lanes bms1)(c := chips)\<rparr>))))
            else Inr bms))"

text \<open>
  \<^verbatim>\<open>parseBMSCommand\<close>. The metadata other than \<^verbatim>\<open>LNOBJ\<close> and the samples bound by
  \<^verbatim>\<open>WAV\<close> are not modelled; of \<^verbatim>\<open>bindChunkTable\<close> only the conversion of the key
  remains.
\<close>

definition parseBMSCommand :: "BMS \<Rightarrow> string \<Rightarrow> fault + BMS" where
  "parseBMSCommand bms line =
     (case match_command line of
        None \<Rightarrow> parseBMSChannel bms line
      | Some (m1, m2) \<Rightarrow>
          if m1 = ''TITLE'' \<or> m1 = ''ARTIST'' \<or> m1 = ''GENRE'' \<or> m1 = ''PLAYLEVEL'' then Inr bms
          else if m1 = ''LNOBJ'' then Inr (bms\<lparr>lnobj := m2\<rparr>)
          else if m1 = ''BPM'' then
            bindF (stof m2) (\<lambda>v.
              Inr (bms\<lparr>bpms := \<lparr>Chip.beat = 0, beat2 = 0, value = v\<rparr> # bpms bms\<rparr>))
          else
            (case match_key m1 of
               None \<Rightarrow> Inr bms
             | Some (n1, n2) \<Rightarrow>
                 if n1 = ''BPM'' then
                   bindF (stof m2) (\<lambda>v. bindF (stoi n2 36) (\<lambda>k.
                     if k < 0 \<or> int TABLE_SIZE \<le> k then Inl PastTheEnd
                     else Inr (bms\<lparr>bpmTable := (bpmTable bms)(nat k := v)\<rparr>)))
                 else if n1 = ''STOP'' then
                   bindF (stof m2) (\<lambda>v. bindF (stoi n2 36) (\<lambda>k.
                     if k < 0 \<or> int TABLE_SIZE \<le> k then Inl PastTheEnd
                     else Inr (bms\<lparr>stopTable := (stopTable bms)(nat k := v / 48)\<rparr>)))
                 else if n1 = ''WAV'' then
                   bindF (stoi n2 36) (\<lambda>k.
                     if k < 0 \<or> int TABLE_SIZE \<le> k then Inl PastTheEnd else Inr bms)
                 else Inr bms))"

text \<open>\<^verbatim>\<open>while (std::getline(stream, line)) f(bms, line);\<close>\<close>

fun each_line :: "(BMS \<Rightarrow> string \<Rightarrow> fault + BMS) \<Rightarrow> BMS \<Rightarrow> string list \<Rightarrow> fault + BMS" where
  "each_line f bms [] = Inr bms"
| "each_line f bms (line # rest) = bindF (f bms line) (\<lambda>bms1. each_line f bms1 rest)"

subsection \<open>Timeline builder\<close>

text \<open>
  One round of the loop of \<^verbatim>\<open>calcSegment\<close> over \<^verbatim>\<open>bpms\<close>. The loop carries
  \<^verbatim>\<open>state_time\<close>, \<^verbatim>\<open>state_beat\<close>, \<^verbatim>\<open>state_bpm\<close> and the vector of segments.
  \<^verbatim>\<open>time\<close> is used only when a segment is pushed; it is not a real number when
  \<^verbatim>\<open>state_bpm\<close> is zero.
\<close>

definition calcSegment_round ::
  "Chip \<Rightarrow> (real \<times> real \<times> real) \<times> Segment list
     \<Rightarrow> fault + (real \<times> real \<times> real) \<times> Segment list" where
  "calcSegment_round ev st =
     (case st of ((state_time, state_beat, state_bpm), segs) \<Rightarrow>
      let b = Chip.beat ev;
          t = state_time + (b - state_beat) * 60 / state_bpm
      in if value ev > 0 then
           (if state_bpm = 0 then Inl NonFinite
            else Inr ((t, b, value ev),
                   segs @ [\<lparr>time = t, beat = b, velocity = value ev / 60, bpm = value ev\<rparr>]))
         else if beat2 ev > 0 then
           (if state_bpm = 0 then Inl NonFinite
            else Inr ((t + beat2 ev * 60 / state_bpm, b, state_bpm),
                   segs @ [\<lparr>time = t, beat = b, velocity = 0, bpm = state_bpm\<rparr>,
                           \<lparr>time = t + beat2 ev * 60 / state_bpm, beat = b,
                            velocity = state_bpm / 60, bpm = state_bpm\<rparr>]))
         else Inr st)"

fun calcSegment_loop ::
  "Chip list \<Rightarrow> (real \<times> real \<times> real) \<times> Segment list
     \<Rightarrow> fault + (real \<times> real \<times> real) \<times> Segment list" where
  "calcSegment_loop [] st = Inr st"
| "calcSegment_loop (ev # rest) st = bindF (calcSegment_round ev st) (calcSegment_loop rest)"

definition sentinel_segment :: Segment where
  "sentinel_segment = \<lparr>time = real_of_int INT_MAX, beat = real_of_int INT_MAX, velocity = 0, bpm = 0\<rparr>"

definition calcSegment :: "Chip list \<Rightarrow> Segment list \<Rightarrow> fault + Segment list" where
  "calcSegment bpm_chips segs0 =
     (case bpm_chips of
        [] \<Rightarrow> Inl PastTheEnd
      | front # _ \<Rightarrow>
          bindF (calcSegment_loop bpm_chips
                   ((0, 0, value front),
                    segs0 @ [\<lparr>time = 0, beat = 0, velocity = value front / 60, bpm = value front\<rparr>]))
            (\<lambda>(st, segs). Inr (segs @ [sentinel_segment])))"

definition sentinel_chip :: Chip where
  "sentinel_chip = \<lparr>Chip.beat = real_of_int INT_MAX, beat2 = 0, value = 0\<rparr>"

text \<open>
  The chart at the start of \<^verbatim>\<open>parseBMS\<close>: a sentinel pushed to every vector of the
  zero-initialized chart, and \<^verbatim>\<open>bms.beats.fill(4)\<close>.
\<close>

definition chart_init :: BMS where
  "chart_init =
     BMS_zero\<lparr>bgms := bgms BMS_zero @ [sentinel_chip],
              bpms := bpms BMS_zero @ [sentinel_chip],
              BMS.lanes := (\<lambda>i. if i < LANES_COUNT then BMS.lanes BMS_zero i @ [sentinel_chip]
                                else BMS.lanes BMS_zero i),
              beats := (\<lambda>_. 4)\<rparr>"

text \<open>
  \<^verbatim>\<open>parseBMS\<close>, on the lines of the chart file (a file that cannot be opened ends the
  process before anything is parsed). Both passes read the same lines.
\<close>

definition parseBMS :: "string list \<Rightarrow> fault + BMS" where
  "parseBMS src =
     bindF (each_line parseBMSMeasure chart_init src) (\<lambda>bms1.
     bindF (each_line parseBMSCommand bms1 src) (\<lambda>bms2.
     bindF (calcSegment (bpms bms2) (BMS.segments bms2)) (\<lambda>segs.
       Inr (bms2\<lparr>BMS.segments := segs\<rparr>))))"

subsection \<open>Session\<close>

record Option =
  speed :: real
  keyBinds :: string
  autoPlay :: int

record Lane =
  "begin" :: nat
  "end" :: nat

text \<open>
  \<^verbatim>\<open>struct Player\<close>, without the metadata and the sample table. The iterators
  \<^verbatim>\<open>segments\<close>, \<^verbatim>\<open>bgm\<close>, \<^verbatim>\<open>begin\<close> and \<^verbatim>\<open>end\<close> are indices into the vectors of the
  chart, which the session never changes; the functions below take the chart as their
  first argument to dereference them.
\<close>

record Player =
  segments :: nat
  startTime :: real
  beat :: real
  bpm :: real
  bgm :: nat
  lanes :: "nat \<Rightarrow> Lane"
  inputs :: "nat \<Rightarrow> 32 word"
  judges :: "nat \<Rightarrow> int"
  totalNotes :: int
  gameover :: int
  quit :: int

text \<open>
  The objects that \<^verbatim>\<open>play\<close>, \<^verbatim>\<open>update\<close>, \<^verbatim>\<open>handler\<close>, \<^verbatim>\<open>judge\<close> and \<^verbatim>\<open>judgeln\<close> pass
  by reference, together with the static variable \<^verbatim>\<open>lastHandledTime\<close> of \<^verbatim>\<open>update\<close>
  and the channels handed to \<^verbatim>\<open>Mix_PlayChannel\<close> so far, in order.
\<close>

record World =
  player :: Player
  option :: Option
  score :: Score
  lastHandledTime :: real
  mixer :: "int list"

text \<open>
  What the outside returns during one call of \<^verbatim>\<open>update\<close>: the clock \<^verbatim>\<open>getTime()\<close> in
  milliseconds, \<^verbatim>\<open>Mix_Playing(-1)\<close>, and \<^verbatim>\<open>getch()\<close> (read only when \<^verbatim>\<open>handler\<close> runs).
\<close>

record Frame =
  getTime :: real
  Mix_Playing :: int
  getch :: int

definition Player_zero :: Player where
  "Player_zero = \<lparr>segments = 0, startTime = 0, beat = 0, bpm = 0, bgm = 0,
     lanes = (\<lambda>_. \<lparr>begin = 0, end = 0\<rparr>), inputs = (\<lambda>_. 0), judges = (\<lambda>_. 0),
     totalNotes = 0, gameover = 0, quit = 0\<rparr>"

definition newGame :: "BMS \<Rightarrow> Player \<Rightarrow> Player" where
  "newGame bms p =
     p\<lparr>segments := 0, bgm := 0, Player.totalNotes := BMS.totalNotes bms,
       lanes := (\<lambda>i. if i < LANES_COUNT then \<lparr>begin = 0, end = 0\<rparr> else lanes p i)\<rparr>"

text \<open>
  \<^verbatim>\<open>while ((segments + 1)->time <= time) segments++; return *segments;\<close>
  The result is the new position of the cursor; the segment returned is the one there.
\<close>

function getSegment :: "Segment list \<Rightarrow> nat \<Rightarrow> real \<Rightarrow> fault + nat" where
  "getSegment segs i t =
     (if length segs \<le> i + 1 then Inl PastTheEnd
      else if time (segs ! (i + 1)) \<le> t then getSegment segs (i + 1) t
      else Inr i)"
  by pat_completeness auto
termination
  by (relation "measure (\<lambda>(segs, i, t). length segs - i)") auto

text \<open>
  Successive calls of \<open>getSegment\<close> on one cursor, as \<open>update\<close> makes them: each call
  starts where the one before has left the cursor. The result lists the positions
  returned.
\<close>

fun getSegment_calls :: "Segment list \<Rightarrow> nat \<Rightarrow> real list \<Rightarrow> fault + nat list" where
  "getSegment_calls segs i [] = Inr []"
| "getSegment_calls segs i (t # ts) =
     bindF (getSegment segs i t) (\<lambda>j.
     bindF (getSegment_calls segs j ts) (\<lambda>js. Inr (j # js)))"

definition advance_begin :: "nat \<Rightarrow> Player \<Rightarrow> Player" where
  "advance_begin index p =
     p\<lparr>lanes := (lanes p)(index := (lanes p index)\<lparr>begin := begin (lanes p index) + 1\<rparr>)\<rparr>"

definition judgeln :: "BMS \<Rightarrow> nat \<Rightarrow> World \<Rightarrow> fault + World" where
  "judgeln bms index w =
     (let p = player w;
          chips = BMS.lanes bms index
      in if LANES_COUNT \<le> index then Inl PastTheEnd
         else if autoPlay (option w) = 0 \<and> inputs p index = 0 then
           bindF (calcReset (score w)) (\<lambda>sc.
             Inr (w\<lparr>score := sc,
                    player := advance_begin index (p\<lparr>Player.judges := (Player.judges p)(index := 0)\<rparr>)\<rparr>))
         else if length chips \<le> begin (lanes p index) then Inl PastTheEnd
         else if Player.bpm p = 0 then Inl NonFinite
         else if (beat2 (chips ! begin (lanes p index)) - Player.beat p) * 60 / Player.bpm p > 0
           then Inr w
         else
           bindF (calculate (score w) (Player.judges p index)) (\<lambda>sc.
             Inr (w\<lparr>score := sc,
                    player := advance_begin index
                      (p\<lparr>inputs := (inputs p)(index := 0),
                         Player.judges := (Player.judges p)(index := 0)\<rparr>)\<rparr>)))"

text \<open>
  \<^verbatim>\<open>judge(player, option, score, lane, index)\<close>: both callers pass
  \<^verbatim>\<open>player.lanes[index]\<close> as \<^verbatim>\<open>lane\<close>. \<open>tier\<close> is the local \<^verbatim>\<open>judge\<close>, and 0 stands
  for the final \<^verbatim>\<open>else return\<close>.
\<close>

definition judge :: "BMS \<Rightarrow> nat \<Rightarrow> World \<Rightarrow> fault + World" where
  "judge bms index w =
     (let p = player w;
          chips = BMS.lanes bms index
      in if LANES_COUNT \<le> index then Inl PastTheEnd
         else if Player.judges p index \<noteq> 0 then judgeln bms index w
         else if length chips \<le> begin (lanes p index) then Inl PastTheEnd
         else if Player.bpm p = 0 then Inl NonFinite
         else
           let note = chips ! begin (lanes p index);
               t = (Chip.beat note - Player.beat p) * 60 / Player.bpm p
           in if t \<ge> JUDGE_BORDER_GOOD then Inr w
              else if t \<le> - JUDGE_BORDER_GOOD then
                bindF (calcReset (score w)) (\<lambda>sc.
                  Inr (w\<lparr>score := sc, player := advance_begin index p\<rparr>))
              else
                let ch = double_to_int (value note) in
                if ch < 0 \<or> int TABLE_SIZE \<le> ch then Inl OutOfRange
                else
                  let w1 = w\<lparr>mixer := mixer w @ [ch]\<rparr>;
                      abs = (if t < 0 then - t else t);
                      tier = (if abs < JUDGE_BORDER_COOL then 1
                              else if abs < JUDGE_BORDER_GREAT then 2
                              else if abs < JUDGE_BORDER_GOOD then 3 else (0 :: int))
                  in if tier = 0 then Inr w1
                     else if beat2 note > 0 then
                       Inr (w1\<lparr>player := p\<lparr>Player.judges := (Player.judges p)(index := tier)\<rparr>\<rparr>)
                     else
                       bindF (calculate (score w1) tier) (\<lambda>sc.
                         Inr (w1\<lparr>score := sc, player := advance_begin index p\<rparr>)))"

definition gameOver :: "World \<Rightarrow> fault + World" where
  "gameOver w =
     bindF (comboCount (score w)) (\<lambda>sc1.
     bindF (scoreCount sc1) (\<lambda>sc2.
       Inr (w\<lparr>score := sc2, player := (player w)\<lparr>gameover := 1, quit := 1\<rparr>\<rparr>)))"

text \<open>
  \<^verbatim>\<open>option.keyBinds[i]\<close> as an \<^verbatim>\<open>int\<close>: \<^verbatim>\<open>char\<close> is signed, and the position just
  after the last character of a \<^verbatim>\<open>std::string\<close> reads as 0.
\<close>

definition keyBind_at :: "string \<Rightarrow> nat \<Rightarrow> fault + int" where
  "keyBind_at binds i =
     (if i < length binds then
        Inr (if (of_char (binds ! i) :: int) < 128 then of_char (binds ! i)
             else of_char (binds ! i) - 256)
      else if i = length binds then Inr 0
      else Inl PastTheEnd)"

text \<open>The last loop of \<^verbatim>\<open>handler\<close>, over the lanes from \<open>i\<close> on.\<close>

function handler_keys :: "BMS \<Rightarrow> int \<Rightarrow> nat \<Rightarrow> World \<Rightarrow> fault + World" where
  "handler_keys bms input i w =
     (if LANES_COUNT \<le> i then Inr w
      else
        bindF (keyBind_at (keyBinds (option w)) i) (\<lambda>k.
          if input \<noteq> k then handler_keys bms input (i + 1) w
          else
            judge bms i
              (w\<lparr>player := (player w)\<lparr>inputs := (inputs (player w))
                                         (i := inputs (player w) i OR 1)\<rparr>\<rparr>)))"
  by pat_completeness auto
termination
  by (relation "measure (\<lambda>(bms, input, i, w). LANES_COUNT - i)") auto

definition handler :: "BMS \<Rightarrow> int \<Rightarrow> World \<Rightarrow> fault + World" where
  "handler bms input w =
     (let w1 = w\<lparr>player := (player w)\<lparr>inputs :=
                  (\<lambda>i. if i < LANES_COUNT then push_bit 1 (inputs (player w) i)
                        else inputs (player w) i)\<rparr>\<rparr>
      in if input = 51 then
           Inr (w1\<lparr>option := (option w1)\<lparr>speed :=
                  (if speed (option w1) - 0.25 < 1 then 1 else speed (option w1) - 0.25)\<rparr>\<rparr>)
         else if input = 52 then
           Inr (w1\<lparr>option := (option w1)\<lparr>speed :=
                  (if speed (option w1) + 0.25 > MAX_SPEED then MAX_SPEED
                   else speed (option w1) + 0.25)\<rparr>\<rparr>)
         else if input = 113 then Inr (w1\<lparr>player := (player w1)\<lparr>quit := 1\<rparr>\<rparr>)
         else if input = 12 then Inr w1
         else if autoPlay (option w1) \<noteq> 0 then Inr w1
         else handler_keys bms input 0 w1)"

text \<open>The first loop of \<^verbatim>\<open>update\<close>: the background cues that are due.\<close>

function update_bgm :: "BMS \<Rightarrow> World \<Rightarrow> fault + World" where
  "update_bgm bms w =
     (if length (bgms bms) \<le> bgm (player w) then Inl PastTheEnd
      else if Player.beat (player w) \<ge> Chip.beat (bgms bms ! bgm (player w)) then
        (if double_to_int (value (bgms bms ! bgm (player w))) < 0
            \<or> int TABLE_SIZE \<le> double_to_int (value (bgms bms ! bgm (player w)))
         then Inl OutOfRange
         else update_bgm bms
                (w\<lparr>mixer := mixer w @ [double_to_int (value (bgms bms ! bgm (player w)))],
                   player := (player w)\<lparr>bgm := bgm (player w) + 1\<rparr>\<rparr>))
      else Inr w)"
  by pat_completeness auto
termination
  by (relation "measure (\<lambda>(bms, w). length (bgms bms) - bgm (player w))") auto

text \<open>One round of the loop of \<^verbatim>\<open>update\<close> over the lanes.\<close>

definition update_lane :: "BMS \<Rightarrow> real \<Rightarrow> nat \<Rightarrow> World \<Rightarrow> fault + World" where
  "update_lane bms padding i w =
     (if length (BMS.lanes bms i) \<le> begin (lanes (player w) i) then Inl PastTheEnd
      else
        bindF (if Player.beat (player w)
                    \<ge> Chip.beat (BMS.lanes bms i ! begin (lanes (player w) i)) + padding
               then judge bms i w else Inr w) (\<lambda>w1.
          if length (BMS.lanes bms i) \<le> end (lanes (player w1) i) then Inl PastTheEnd
          else
            let w2 = (if Player.beat (player w1)
                           \<ge> Chip.beat (BMS.lanes bms i ! end (lanes (player w1) i)) - LIFETIME_BEATS
                      then w1\<lparr>player := (player w1)\<lparr>lanes := (lanes (player w1))
                                (i := (lanes (player w1) i)\<lparr>end := end (lanes (player w1) i) + 1\<rparr>)\<rparr>\<rparr>
                      else w1)
            in if Player.judges (player w2) i \<noteq> 0 then judgeln bms i w2 else Inr w2))"

fun update_lanes :: "BMS \<Rightarrow> real \<Rightarrow> nat list \<Rightarrow> World \<Rightarrow> fault + World" where
  "update_lanes bms padding [] w = Inr w"
| "update_lanes bms padding (i # rest) w =
     bindF (update_lane bms padding i w) (update_lanes bms padding rest)"

definition update :: "BMS \<Rightarrow> Frame \<Rightarrow> World \<Rightarrow> fault + World" where
  "update bms frame w =
     (let currentTime = (getTime frame - startTime (player w)) / 1000 in
      bindF (getSegment (BMS.segments bms) (Player.segments (player w)) currentTime) (\<lambda>k.
        let segment = BMS.segments bms ! k;
            w1 = w\<lparr>player := (player w)\<lparr>Player.segments := k,
                   Player.beat := Segment.beat segment
                                  + (currentTime - time segment) * velocity segment,
                   Player.bpm := Segment.bpm segment\<rparr>\<rparr>
        in bindF (update_bgm bms w1) (\<lambda>w2.
           let padding = (if autoPlay (option w2) = 0
                          then (JUDGE_BORDER_GOOD + 0.001) * Player.bpm (player w2) / 60 else 0)
           in bindF (update_lanes bms padding [0..<LANES_COUNT] w2) (\<lambda>w3.
              if length (bgms bms) \<le> bgm (player w3) then Inl PastTheEnd
              else
                bindF (if Chip.beat (bgms bms ! bgm (player w3)) \<ge> real_of_int INT_MAX
                          \<and> Mix_Playing frame = 0
                       then gameOver w3 else Inr w3) (\<lambda>w4.
                  if (currentTime - lastHandledTime w4) * 1000 \<ge> 15 then
                    bindF (handler bms (getch frame) w4) (\<lambda>w5.
                      Inr (w5\<lparr>lastHandledTime := currentTime\<rparr>))
                  else Inr w4)))))"

text \<open>
  The three parts of \<^verbatim>\<open>update\<close>, for the statements about the frame in which a session
  ends: everything up to the end of the loop over the lanes, the test for the end of the
  chart that guards the call of \<^verbatim>\<open>gameOver\<close>, and the handling of the input.
\<close>

definition update_notes :: "BMS \<Rightarrow> Frame \<Rightarrow> World \<Rightarrow> fault + World" where
  "update_notes bms frame w =
     (let currentTime = (getTime frame - startTime (player w)) / 1000 in
      bindF (getSegment (BMS.segments bms) (Player.segments (player w)) currentTime) (\<lambda>k.
        let segment = BMS.segments bms ! k;
            w1 = w\<lparr>player := (player w)\<lparr>Player.segments := k,
                   Player.beat := Segment.beat segment
                                  + (currentTime - time segment) * velocity segment,
                   Player.bpm := Segment.bpm segment\<rparr>\<rparr>
        in bindF (update_bgm bms w1) (\<lambda>w2.
           let padding = (if autoPlay (option w2) = 0
                          then (JUDGE_BORDER_GOOD + 0.001) * Player.bpm (player w2) / 60 else 0)
           in update_lanes bms padding [0..<LANES_COUNT] w2)))"

definition chart_ended :: "BMS \<Rightarrow> Frame \<Rightarrow> World \<Rightarrow> bool" where
  "chart_ended bms frame w \<longleftrightarrow>
     Chip.beat (bgms bms ! bgm (player w)) \<ge> real_of_int INT_MAX \<and> Mix_Playing frame = 0"

definition update_input :: "BMS \<Rightarrow> Frame \<Rightarrow> real \<Rightarrow> World \<Rightarrow> fault + World" where
  "update_input bms frame currentTime w =
     (if (currentTime - lastHandledTime w) * 1000 \<ge> 15 then
        bindF (handler bms (getch frame) w) (\<lambda>w5. Inr (w5\<lparr>lastHandledTime := currentTime\<rparr>))
      else Inr w)"

text \<open>
  \<^verbatim>\<open>play\<close>: \<^verbatim>\<open>score.totalNotes = player.totalNotes\<close>, the start time, and the loop
  \<^verbatim>\<open>while (!player.quit)\<close> over the frames the outside supplies. The loop of the
  source has no bound of its own; a run here is cut where the list of frames ends.
\<close>

fun play_loop :: "BMS \<Rightarrow> Frame list \<Rightarrow> World \<Rightarrow> fault + World" where
  "play_loop bms [] w = Inr w"
| "play_loop bms (frame # rest) w =
     (if quit (player w) \<noteq> 0 then Inr w
      else bindF (update bms frame w) (play_loop bms rest))"

definition play :: "BMS \<Rightarrow> real \<Rightarrow> Frame list \<Rightarrow> World \<Rightarrow> fault + World" where
  "play bms start frames w =
     play_loop bms frames
       (w\<lparr>score := (score w)\<lparr>Score.totalNotes := Player.totalNotes (player w)\<rparr>,
          player := (player w)\<lparr>startTime := start\<rparr>\<rparr>)"

text \<open>
  \<^verbatim>\<open>main\<close> after \<^verbatim>\<open>parseBMS\<close>: \<^verbatim>\<open>Player player = {}; newGame(bms, player);
  Score score = {}; play(player, option, score)\<close>.
\<close>

definition run :: "BMS \<Rightarrow> Option \<Rightarrow> real \<Rightarrow> Frame list \<Rightarrow> fault + World" where
  "run bms opt start frames =
     play bms start frames
       \<lparr>player = newGame bms Player_zero, option = opt, score = Score_zero,
        lastHandledTime = 0, mixer = []\<rparr>"

subsection \<open>Notions of the specification\<close>

text \<open>
  The timing delta of the specification for the note at \<open>begin\<close> of a lane, in seconds,
  and the tier of a delta inside the good window (1 cool, 2 great, 3 good).
\<close>

definition judge_delta :: "BMS \<Rightarrow> nat \<Rightarrow> World \<Rightarrow> real" where
  "judge_delta bms index w =
     (Chip.beat (BMS.lanes bms index ! begin (lanes (player w) index)) - Player.beat (player w))
       * 60 / Player.bpm (player w)"





text \<open>
  The token at index \<open>c\<close> of a channel line, as the loop of \<open>calcChip\<close> cuts it out.
\<close>

definition token_at :: "string \<Rightarrow> nat \<Rightarrow> string" where
  "token_at notation c = take 2 (drop (c * 2) notation)"

text \<open>
  The state of the loop of \<open>calcChip\<close> is in order up to \<open>B\<close>: the vector ascends in
  \<open>beat\<close>, and the events before the position \<open>i\<close> lie at or before \<open>B\<close>.
\<close>

definition placed :: "real \<Rightarrow> Chip list \<times> nat \<times> int \<Rightarrow> bool" where
  "placed B st \<longleftrightarrow>
     (case st of (chips, i, n) \<Rightarrow>
        sorted (map Chip.beat chips) \<and> (\<forall>k<i. k < length chips \<longrightarrow> Chip.beat (chips ! k) \<le> B))"

text \<open>The background cues and every lane ascend in \<open>beat\<close>.\<close>

definition sorted_chart :: "BMS \<Rightarrow> bool" where
  "sorted_chart bms \<longleftrightarrow>
     sorted (map Chip.beat (bgms bms))
     \<and> (\<forall>i<LANES_COUNT. sorted (map Chip.beat (BMS.lanes bms i)))"

text \<open>
  The measure and the multiplier that a line \<open>#mmm02:x\<close> declares, and the beat length
  of a measure according to a source: four times the multiplier of the last line that
  declares one for the measure, and 4 when no line does.
\<close>

definition directive_of :: "string \<Rightarrow> (nat \<times> real) option" where
  "directive_of line =
     (case match_measure line of
        None \<Rightarrow> None
      | Some (m1, m2) \<Rightarrow>
          (case stof m2 of Inl e \<Rightarrow> None | Inr x \<Rightarrow> Some (digits_val 10 m1, x)))"

definition beat_lengths :: "string list \<Rightarrow> nat \<Rightarrow> real" where
  "beat_lengths src m =
     (case filter (\<lambda>d. fst d = m) (List.map_filter directive_of src) of
        [] \<Rightarrow> 4
      | d # ds \<Rightarrow> snd (last (d # ds)) * 4)"

text \<open>
  The beat of the specification for the token at index \<open>c\<close> of a channel line of
  measure \<open>m\<close>, the indices of the tokens of a line other than 00, and the calls of
  \<open>calcChip\<close> in which every such token inserts an event: the channels 1, 3, 8 and 9,
  and a note channel when no token is the closing token.
\<close>

definition token_beat :: "string list \<Rightarrow> nat \<Rightarrow> string \<Rightarrow> nat \<Rightarrow> real" where
  "token_beat src m notation c =
     (\<Sum>k<m. beat_lengths src k) + real c * beat_lengths src m / real (length notation div 2)"

definition event_tokens :: "string \<Rightarrow> nat list" where
  "event_tokens notation =
     filter (\<lambda>c. token_at notation c \<noteq> ''00'') [0..<length notation div 2]"

definition inserts_always :: "int \<Rightarrow> string \<Rightarrow> string \<Rightarrow> bool" where
  "inserts_always channel closer notation \<longleftrightarrow>
     channel = 1 \<or> channel = 3 \<or> channel = 8 \<or> channel = 9
     \<or> (note_channel channel \<and> closer \<notin> set (map (token_at notation) (event_tokens notation)))"

text \<open>
  The running state of the timeline builder agrees with the last segment pushed: its time,
  beat and tempo are that segment's, whose velocity is the tempo in beats per second.
\<close>

definition tracked :: "(real \<times> real \<times> real) \<times> Segment list \<Rightarrow> bool" where
  "tracked st \<longleftrightarrow>
     (case st of ((t, b, tempo), segs) \<Rightarrow>
        segs \<noteq> [] \<and> time (last segs) = t \<and> Segment.beat (last segs) = b
        \<and> Segment.bpm (last segs) = tempo \<and> velocity (last segs) = tempo / 60)"

text \<open>A pause event of the tempo sequence: no tempo, a positive duration in beats.\<close>

definition is_pause :: "Chip \<Rightarrow> bool" where
  "is_pause ev \<longleftrightarrow> value ev = 0 \<and> 0 < beat2 ev"

text \<open>The builder's state is tracked, its tempo positive and its segment times ascending.\<close>

definition in_order :: "(real \<times> real \<times> real) \<times> Segment list \<Rightarrow> bool" where
  "in_order st \<longleftrightarrow>
     tracked st \<and> (case st of ((t, b, tempo), segs) \<Rightarrow> 0 < tempo \<and> sorted (map time segs))"

text \<open>
  The two segments of a pause, given the last segment before it: the freeze at the
  pause's time and beat, and the resumption after the pause's duration at that tempo.
\<close>

definition freeze_segment :: "Segment \<Rightarrow> Chip \<Rightarrow> Segment" where
  "freeze_segment l ev =
     \<lparr>time = time l + (Chip.beat ev - Segment.beat l) * 60 / Segment.bpm l,
      beat = Chip.beat ev, velocity = 0, bpm = Segment.bpm l\<rparr>"

definition resume_segment :: "Segment \<Rightarrow> Chip \<Rightarrow> Segment" where
  "resume_segment l ev =
     \<lparr>time = time l + (Chip.beat ev - Segment.beat l) * 60 / Segment.bpm l
             + beat2 ev * 60 / Segment.bpm l,
      beat = Chip.beat ev, velocity = velocity l, bpm = Segment.bpm l\<rparr>"

text \<open>The state and the output of \<open>calcSegment\<close> when its loop starts.\<close>

definition timeline_start :: "Chip list \<Rightarrow> (real \<times> real \<times> real) \<times> Segment list" where
  "timeline_start evs =
     ((0, 0, value (hd evs)),
      [\<lparr>time = 0, beat = 0, velocity = value (hd evs) / 60, bpm = value (hd evs)\<rparr>])"

text \<open>
  What no step of a session other than \<open>gameOver\<close> changes: the number of notes and the
  point total of the score, and the flag \<open>gameover\<close>; counters that are not negative stay
  so, and \<open>quit\<close> is never cleared.
\<close>

definition score_steady :: "Score \<Rightarrow> Score \<Rightarrow> bool" where
  "score_steady s s' \<longleftrightarrow>
     Score.totalNotes s' = Score.totalNotes s \<and> point s' = point s
     \<and> ((\<forall>i. 0 \<le> Score.judges s i) \<longrightarrow> (\<forall>i. 0 \<le> Score.judges s' i))"

definition steady :: "World \<Rightarrow> World \<Rightarrow> bool" where
  "steady w w' \<longleftrightarrow>
     score_steady (score w) (score w') \<and> gameover (player w') = gameover (player w)
     \<and> (quit (player w) \<noteq> 0 \<longrightarrow> quit (player w') \<noteq> 0)"



section \<open>Evaluation\<close>

text \<open>
  The equations of the loops are unfolded on demand only. The collections below hold
  the definitions that a run on a concrete chart has to unfold.
\<close>

declare calcChip_scan.simps [simp del] getSegment.simps [simp del]
  handler_keys.simps [simp del] update_bgm.simps [simp del]

lemmas char_defs = is_digit_def is_upper_def is_lower_def is_word_def is_space_def CR_def LF_def
  chomp_cr_def to_lower_def digit_val_def digits_val_def
lemmas parse_defs = parseBMS_def chart_init_def parseBMSMeasure_def parseBMSCommand_def parseBMSChannel_def
  match_measure_def match_command_def match_channel_def match_key_def stoi_def stof_def
  decimal_digits_def decimal_value_def is_xdigit_def hex_digits_def hex_value_def
  float_range_def FLT_MAX_def FLT_MIN_def
  calcChip_def calcChip_token_def insert_at_def table_at_def note_channel_def long_channel_def
  lane_index_def calcSegment_def calcSegment_round_def sentinel_segment_def sentinel_chip_def BMS_zero_def
  BEATS_SIZE_def TABLE_SIZE_def INT_MAX_def LANES_COUNT_def int_range_def bindF_def Let_def
lemmas score_defs = comboBonus_def comboCount_def calculate_def calcReset_def scoreCount_def
  c_div_def JUDGE_PHASES_def Score_zero_def
lemmas session_defs = run_def play_def update_def update_lane_def judge_def judgeln_def
  handler_def gameOver_def keyBind_at_def advance_begin_def newGame_def Player_zero_def
  double_to_int_def JUDGE_BORDER_GOOD_def JUDGE_BORDER_GREAT_def JUDGE_BORDER_COOL_def
  LIFETIME_BEATS_def MAX_SPEED_def


lemma bindF_Inr: "bindF m f = Inr y \<longleftrightarrow> (\<exists>x. m = Inr x \<and> f x = Inr y)"
  by (cases m) (simp_all add: bindF_def)

section \<open>Scoring\<close>

lemma c_div_pos: "0 \<le> a \<Longrightarrow> 0 < b \<Longrightarrow> c_div a b = a div b"
  by (cases "a = 0") (simp_all add: c_div_def)

lemma int_div_le_self: "0 \<le> a \<Longrightarrow> 0 < b \<Longrightarrow> a div b \<le> (a::int)"
  using zdiv_mono2 [of a 1 b] by simp

lemma c_div_abs_le: "\<bar>c_div a b\<bar> \<le> \<bar>a\<bar>"
proof (cases "b = 0")
  case True
  then show ?thesis by (simp add: c_div_def)
next
  case False
  then have "\<bar>a\<bar> div \<bar>b\<bar> \<le> \<bar>a\<bar>" by (intro int_div_le_self) auto
  moreover have "0 \<le> \<bar>a\<bar> div \<bar>b\<bar>" by (simp add: div_int_pos_iff)
  moreover have "\<bar>c_div a b\<bar> = \<bar>sgn a\<bar> * \<bar>sgn b\<bar> * \<bar>\<bar>a\<bar> div \<bar>b\<bar>\<bar>"
    by (simp add: c_div_def abs_mult)
  ultimately show ?thesis using False by (cases "a = 0") (auto simp: abs_sgn_eq)
qed

lemma bonus_numer_cases:
  "bonus_numer c = (if c < 11 then 2 * (c * c) - 2 * c else 40 * c - 220)"
  by (simp add: bonus_numer_def algebra_simps)

lemma bonus_numer_bound:
  assumes "0 \<le> c" "c \<le> m" "11 \<le> m"
  shows "0 \<le> bonus_numer c" "bonus_numer c \<le> 40 * m - 220"
proof -
  have small: "c * c \<le> 100" if "c < 11"
    using mult_mono [of c 10 c 10] assms that by simp
  have "c * 1 \<le> c * c" if "1 \<le> c"
    using that by (intro mult_left_mono) auto
  then have ge: "c \<le> c * c" using assms by (cases "c = 0") auto
  show "0 \<le> bonus_numer c" using assms ge by (simp add: bonus_numer_cases)
  show "bonus_numer c \<le> 40 * m - 220" using assms small by (auto simp: bonus_numer_cases)
qed

lemma square_bound: "0 \<le> c \<Longrightarrow> c \<le> 42955 \<Longrightarrow> c * c \<le> (1845132025::int)"
  using mult_mono [of c 42955 c 42955] by simp

lemma comboBonus_Inr:
  assumes "0 \<le> combo s" "combo s \<le> 42955"
    "- 1073741818 \<le> Score.totalNotes s" "Score.totalNotes s \<le> 1073741823"
  shows "comboBonus s = Inr (s\<lparr>Score.comboBonus := bonus_of (combo s) (Score.totalNotes s)\<rparr>)"
proof -
  define c where "c = combo s"
  define t where "t = Score.totalNotes s"
  define p where "p = (if c - 11 < 0 then - (c - 11) else c - 11)"
  have c: "0 \<le> c" "c \<le> 42955" and t: "- 1073741818 \<le> t" "t \<le> 1073741823"
    using assms by (simp_all add: c_def t_def)
  have p: "p = \<bar>c - 11\<bar>" by (simp add: p_def)
  have cc: "0 \<le> c * c" "c * c \<le> 1845132025"
    using c square_bound by simp_all
  have prod: "(c - 10) * p = (if c < 11 then - (c * c) + 21 * c - 110 else c * c - 21 * c + 110)"
    by (simp add: p_def algebra_simps)
  have n: "c * c - (c - 10) * p + 19 * c - 110 = bonus_numer c"
    by (simp add: bonus_numer_def p)
  have nb: "0 \<le> bonus_numer c" "bonus_numer c \<le> 1717980"
    using bonus_numer_bound [of c 42955] c by simp_all
  have odd: "2 * t - 11 \<noteq> 0" by presburger
  have q: "int_range (c_div (1250 * bonus_numer c) (2 * t - 11))"
    using c_div_abs_le [of "1250 * bonus_numer c" "2 * t - 11"] nb
    unfolding int_range_def by arith
  have r: "list_all int_range
             [c - 11, p, c * c, c - 10, (c - 10) * p, c * c - (c - 10) * p, 19 * c,
              c * c - (c - 10) * p + 19 * c, c * c - (c - 10) * p + 19 * c - 110,
              1250 * (c * c - (c - 10) * p + 19 * c - 110), 2 * t, 2 * t - 11]"
  proof -
    have "p \<le> 42955" "0 \<le> p" using c by (simp_all add: p)
    moreover have "- 1845132025 \<le> (c - 10) * p \<and> (c - 10) * p \<le> 1845132025"
    proof (cases "c < 11")
      case True
      then have "(c - 10) * p = - (c * c) + 21 * c - 110" by (simp add: prod)
      moreover have "c * c \<le> 100" using mult_mono [of c 10 c 10] c True by simp
      ultimately show ?thesis using c cc(1) by linarith
    next
      case False
      then have "(c - 10) * p = c * c - 21 * c + 110" by (simp add: prod)
      then show ?thesis using c cc False by linarith
    qed
    moreover have "int_range (c * c - (c - 10) * p + 19 * c - 110)"
      "int_range (1250 * (c * c - (c - 10) * p + 19 * c - 110))"
      unfolding n using nb by (simp_all add: int_range_def)
    ultimately show ?thesis
      using c cc t by (simp add: int_range_def)
  qed
  show ?thesis
    unfolding comboBonus_def Let_def c_def [symmetric] t_def [symmetric] p_def [symmetric]
    using r q odd by (simp only: n bonus_of_def simp_thms if_True if_False)
qed

lemma comboCount_Inr:
  assumes "0 \<le> combo s" "combo s \<le> 42955"
    "- 1073741818 \<le> Score.totalNotes s" "Score.totalNotes s \<le> 1073741823"
  shows "comboCount s = Inr (s\<lparr>maxCombo := max (maxCombo s) (combo s),
           Score.comboBonus := bonus_of (combo s) (Score.totalNotes s), combo := 0\<rparr>)"
proof (cases "maxCombo s < combo s")
  case True
  then show ?thesis
    using comboBonus_Inr [of "s\<lparr>maxCombo := combo s\<rparr>"] assms
    by (simp add: comboCount_def bindF_def max_def)
next
  case False
  then show ?thesis
    using comboBonus_Inr [of s] assms
    by (simp add: comboCount_def bindF_def max_def)
qed


lemma bonus_of_bound:
  assumes "0 \<le> c" "c \<le> 28633"
  shows "\<bar>bonus_of c t\<bar> \<le> 1431400000"
proof -
  have "0 \<le> bonus_numer c" "bonus_numer c \<le> 1145100"
    using bonus_numer_bound [of c 28633] assms by simp_all
  then show ?thesis
    using c_div_abs_le [of "1250 * bonus_numer c" "2 * t - 11"] by (simp add: bonus_of_def)
qed

lemma scoreCount_Inr_bounds:
  assumes t: "0 < Score.totalNotes s" "Score.totalNotes s \<le> 28633"
    and j: "0 \<le> Score.judges s 0" "0 \<le> Score.judges s 1" "0 \<le> Score.judges s 2"
      "Score.judges s 0 + Score.judges s 1 + Score.judges s 2 \<le> Score.totalNotes s"
    and b: "\<bar>Score.comboBonus s\<bar> \<le> 1431400000"
  shows "scoreCount s = Inr (s\<lparr>point :=
           75000 * Score.judges s 0 div Score.totalNotes s
           + (50000 * Score.judges s 1 + 10000 * Score.judges s 2) div Score.totalNotes s
           + Score.comboBonus s\<rparr>)"
proof -
  define t where "t = Score.totalNotes s"
  define a where "a = 75000 * Score.judges s 0"
  define e where "e = 50000 * Score.judges s 1 + 10000 * Score.judges s 2"
  have ae: "0 \<le> a" "a \<le> 75000 * t" "0 \<le> e" "e \<le> 50000 * t"
    using assms by (simp_all add: a_def e_def t_def)
  have tt: "0 < t" "t \<le> 28633" using t by (simp_all add: t_def)
  have qa: "c_div a t = a div t" "c_div e t = e div t"
    using ae tt by (simp_all add: c_div_pos)
  have "a div t \<le> (75000 * t) div t" "e div t \<le> (50000 * t) div t"
    using ae tt by (intro zdiv_mono1; simp)+
  moreover have "(75000 * t) div t = 75000" "(50000 * t) div t = 50000"
    using tt by simp_all
  ultimately have qb: "a div t \<le> 75000" "e div t \<le> 50000" "0 \<le> a div t" "0 \<le> e div t"
    using tt ae by (simp_all add: div_int_pos_iff)
  have r1: "list_all int_range [75000 * Score.judges s 0, 50000 * Score.judges s 1,
       10000 * Score.judges s 2, e]"
    using assms by (simp add: int_range_def e_def)
  have r2: "list_all int_range [c_div a t, c_div e t, c_div a t + c_div e t,
       c_div a t + c_div e t + Score.comboBonus s]"
    using qb b by (simp add: qa int_range_def) arith
  have "scoreCount s = Inr (s\<lparr>point := c_div a t + c_div e t + Score.comboBonus s\<rparr>)"
    unfolding scoreCount_def Let_def a_def [symmetric] e_def [symmetric] t_def [symmetric]
    using r1 r2 tt unfolding a_def [symmetric] by (simp del: list.pred_inject)
  then show ?thesis by (simp add: qa) (simp add: a_def e_def t_def)
qed

lemma play_loop_quit: "quit (player w) \<noteq> 0 \<Longrightarrow> play_loop bms frames w = Inr w"
  by (cases frames) simp_all


text \<open>
  Claim C1. On every combo reset the bonus of that reset is said to be added to the
  combo-bonus accumulator. The code assigns instead: in a chart of 30 notes, a miss
  after a combo of 20 sets the bonus to 14795, and the reset at the end of the session,
  after a further combo of 9, replaces it by 3673 (the sum would be 18468).
\<close>

theorem comboCount_overwrites_bonus:
  "calcReset \<lparr>Score.judges = (\<lambda>_. 0)(0 := 20), combo = 20, Score.comboBonus = 0, maxCombo = 0,
      point = 0, totalJudges = 20, Score.totalNotes = 30\<rparr>
   = Inr \<lparr>Score.judges = (\<lambda>_. 0)(0 := 20, 3 := 1), combo = 0, Score.comboBonus = 14795,
      maxCombo = 20, point = 0, totalJudges = 21, Score.totalNotes = 30\<rparr>
   \<and> comboCount \<lparr>Score.judges = (\<lambda>_. 0)(0 := 29, 3 := 1), combo = 9, Score.comboBonus = 14795,
      maxCombo = 20, point = 0, totalJudges = 30, Score.totalNotes = 30\<rparr>
   = Inr \<lparr>Score.judges = (\<lambda>_. 0)(0 := 29, 3 := 1), combo = 0, Score.comboBonus = 3673,
      maxCombo = 20, point = 0, totalJudges = 30, Score.totalNotes = 30\<rparr>"
  by (simp add: calcReset_def comboCount_def comboBonus_def bindF_def int_range_def
      c_div_def JUDGE_PHASES_def Let_def)

text \<open>
  On a chart of at most 28633 notes, with counters that are not negative and do not
  exceed the number of notes, no product of \<open>gameOver\<close> leaves the range of \<^verbatim>\<open>int\<close>, the
  truncated quotients are the floors, and the computation returns. It sets \<open>quit\<close>,
  after which the loop of \<open>play\<close> makes no further update.
\<close>

lemma gameOver_returns:
  assumes t: "0 < Score.totalNotes (score w)" "Score.totalNotes (score w) \<le> 28633"
    and j: "0 \<le> Score.judges (score w) 0" "0 \<le> Score.judges (score w) 1"
      "0 \<le> Score.judges (score w) 2"
      "Score.judges (score w) 0 + Score.judges (score w) 1 + Score.judges (score w) 2
         \<le> Score.totalNotes (score w)"
    and c: "0 \<le> combo (score w)" "combo (score w) \<le> Score.totalNotes (score w)"
  shows "\<exists>w'. gameOver w = Inr w'
     \<and> point (score w') =
         75000 * Score.judges (score w) 0 div Score.totalNotes (score w)
         + (50000 * Score.judges (score w) 1 + 10000 * Score.judges (score w) 2)
             div Score.totalNotes (score w)
         + Score.comboBonus (score w')
     \<and> Score.comboBonus (score w') = bonus_of (combo (score w)) (Score.totalNotes (score w))
     \<and> Score.judges (score w') = Score.judges (score w)
     \<and> Score.totalNotes (score w') = Score.totalNotes (score w)
     \<and> gameover (player w') = 1 \<and> quit (player w') = 1
     \<and> (\<forall>bms frames. play_loop bms frames w' = Inr w')"
proof -
  define s1 where "s1 = (score w)\<lparr>maxCombo := max (maxCombo (score w)) (combo (score w)),
     Score.comboBonus := bonus_of (combo (score w)) (Score.totalNotes (score w)), combo := 0\<rparr>"
  have cc: "comboCount (score w) = Inr s1"
    unfolding s1_def using t c by (intro comboCount_Inr) auto
  have b: "\<bar>Score.comboBonus s1\<bar> \<le> 1431400000"
    using bonus_of_bound [of "combo (score w)" "Score.totalNotes (score w)"] t c
    by (simp add: s1_def)
  have sc: "scoreCount s1 = Inr (s1\<lparr>point :=
           75000 * Score.judges s1 0 div Score.totalNotes s1
           + (50000 * Score.judges s1 1 + 10000 * Score.judges s1 2) div Score.totalNotes s1
           + Score.comboBonus s1\<rparr>)"
    using t j b by (intro scoreCount_Inr_bounds) (simp_all add: s1_def)
  have "gameOver w = Inr (w\<lparr>score := s1\<lparr>point :=
           75000 * Score.judges s1 0 div Score.totalNotes s1
           + (50000 * Score.judges s1 1 + 10000 * Score.judges s1 2) div Score.totalNotes s1
           + Score.comboBonus s1\<rparr>, player := (player w)\<lparr>gameover := 1, quit := 1\<rparr>\<rparr>)"
    by (simp add: gameOver_def cc sc bindF_def)
  then show ?thesis
    by (simp add: s1_def play_loop_quit)
qed

text \<open>
  The scenario of the specification: 100 notes, all of them cool, in one combo. The
  bonus is 25000 and the total 100000.
\<close>

lemma gameOver_scenario:
  "\<exists>w'. gameOver \<lparr>player = Player_zero, option = \<lparr>speed = 1, keyBinds = ''azsxdcfv'', autoPlay = 0\<rparr>,
         score = Score_zero\<lparr>Score.judges := (\<lambda>_. 0)(0 := 100), combo := 100,
                            Score.totalNotes := 100\<rparr>,
         lastHandledTime = 0, mixer = []\<rparr> = Inr w'
     \<and> point (score w') = 100000 \<and> quit (player w') = 1"
  using gameOver_returns [of "\<lparr>player = Player_zero,
         option = \<lparr>speed = 1, keyBinds = ''azsxdcfv'', autoPlay = 0\<rparr>,
         score = Score_zero\<lparr>Score.judges := (\<lambda>_. 0)(0 := 100), combo := 100,
                            Score.totalNotes := 100\<rparr>,
         lastHandledTime = 0, mixer = []\<rparr>"]
  by (auto simp: Score_zero_def bonus_of_def bonus_numer_def c_div_def)

text \<open>
  Claim C3, as the code has it. The divisor \<open>2 * t - 11\<close> of the combo bonus is odd, so
  that computation never divides by zero. The point total divides by \<open>totalNotes\<close>
  with no guard: it divides by zero exactly when \<open>totalNotes\<close> is zero (and the products
  before the division fit).
\<close>

theorem scoring_divisors:
  "comboBonus s \<noteq> Inl DivideByZero
   \<and> (scoreCount s = Inl DivideByZero \<longleftrightarrow>
        Score.totalNotes s = 0
        \<and> list_all int_range [75000 * Score.judges s 0, 50000 * Score.judges s 1,
             10000 * Score.judges s 2, 50000 * Score.judges s 1 + 10000 * Score.judges s 2])"
proof -
  have "2 * Score.totalNotes s - 11 \<noteq> 0" by presburger
  then have "comboBonus s \<noteq> Inl DivideByZero" by (simp add: comboBonus_def Let_def)
  then show ?thesis by (simp add: scoreCount_def Let_def)
qed

text \<open>
  Claim C3 as stated fails: \<open>totalNotes = 0\<close> is reachable. A chart with a tempo
  and one background cue, and no playable note, is parsed with \<open>totalNotes = 0\<close>; once
  the cue has been played and the mixer is silent, \<open>update\<close> calls \<open>gameOver\<close>, whose
  \<open>scoreCount\<close> divides by zero.
\<close>

theorem chart_without_notes_divides_by_zero:
  "(case parseBMS [''#BPM 120'', ''#00101:01''] of Inl e \<Rightarrow> False
    | Inr bms \<Rightarrow> BMS.totalNotes bms = 0
       \<and> run bms \<lparr>speed = 1, keyBinds = ''azsxdcfv'', autoPlay = 0\<rparr> 0
            [\<lparr>getTime = 3000, Mix_Playing = 0, getch = - 1\<rparr>] = Inl DivideByZero)"
  by (simp add: parse_defs char_defs score_defs session_defs calcChip_scan.simps 
       getSegment.simps update_bgm.simps handler_keys.simps upt_rec)

section \<open>Timeline lookup\<close>

lemma getSegment_Inr:
  "getSegment segs i t = Inr j \<Longrightarrow>
     i \<le> j \<and> j + 1 < length segs
     \<and> (\<forall>k. i < k \<and> k \<le> j \<longrightarrow> time (segs ! k) \<le> t)
     \<and> t < time (segs ! (j + 1))"
proof (induction segs i t rule: getSegment.induct)
  case (1 segs i t)
  show ?case
  proof (cases "time (segs ! (i + 1)) \<le> t")
    case True
    with "1.prems" have run: "getSegment segs (i + 1) t = Inr j" and len: "i + 1 < length segs"
      by (simp_all add: getSegment.simps [of segs i t] split: if_splits)
    from "1.IH" [OF _ True run] len
    have ih: "i + 1 \<le> j" "j + 1 < length segs"
      "\<forall>k. i + 1 < k \<and> k \<le> j \<longrightarrow> time (segs ! k) \<le> t" "t < time (segs ! (j + 1))"
      by simp_all
    have "time (segs ! k) \<le> t" if "i < k" "k \<le> j" for k
      using that ih(3) True by (cases "k = i + 1") auto
    with ih show ?thesis by auto
  next
    case False
    with "1.prems" show ?thesis
      by (simp add: getSegment.simps [of segs i t] split: if_splits)
  qed
qed

lemma getSegment_returns:
  "i < k \<Longrightarrow> k < length segs \<Longrightarrow> t < time (segs ! k) \<Longrightarrow> \<exists>j. getSegment segs i t = Inr j \<and> j < k"
proof (induction segs i t rule: getSegment.induct)
  case (1 segs i t)
  show ?case
  proof (cases "time (segs ! (i + 1)) \<le> t")
    case True
    with "1.prems" have "i + 1 < k" by (cases "k = i + 1") auto
    with "1.IH" [OF _ True] "1.prems" True show ?thesis
      by (simp add: getSegment.simps [of segs i t])
  next
    case False
    with "1.prems" show ?thesis
      by (simp add: getSegment.simps [of segs i t])
  qed
qed

lemma getSegment_calls_Inr:
  assumes "getSegment_calls segs i ts = Inr js"
  shows "sorted (i # js) \<and> length js = length ts
     \<and> (\<forall>n < length ts.
           (i # js) ! n \<le> js ! n \<and> js ! n + 1 < length segs
           \<and> (\<forall>k. (i # js) ! n < k \<and> k \<le> js ! n \<longrightarrow> time (segs ! k) \<le> ts ! n)
           \<and> ts ! n < time (segs ! (js ! n + 1)))"
  using assms
proof (induction ts arbitrary: i js)
  case Nil
  then show ?case by simp
next
  case (Cons t ts)
  from Cons.prems obtain j js' where j: "getSegment segs i t = Inr j"
    and rest: "getSegment_calls segs j ts = Inr js'" and js: "js = j # js'"
    by (auto simp: bindF_Inr)
  note first = getSegment_Inr [OF j]
  note ih = Cons.IH [OF rest]
  have "sorted (i # js)" using first ih js by (auto intro: order_trans)
  moreover have "length js = length (t # ts)" using ih js by simp
  moreover have "(i # js) ! n \<le> js ! n \<and> js ! n + 1 < length segs
           \<and> (\<forall>k. (i # js) ! n < k \<and> k \<le> js ! n \<longrightarrow> time (segs ! k) \<le> (t # ts) ! n)
           \<and> (t # ts) ! n < time (segs ! (js ! n + 1))" if "n < length (t # ts)" for n
  proof (cases n)
    case 0
    then show ?thesis using first js by simp
  next
    case (Suc m)
    then show ?thesis using ih that js by simp
  qed
  ultimately show ?case by blast
qed


lemma getSegment_calls_returns:
  assumes "i + 1 < length segs" "\<forall>t \<in> set ts. t < time (last segs)"
  shows "\<exists>js. getSegment_calls segs i ts = Inr js"
  using assms
proof (induction ts arbitrary: i)
  case Nil
  then show ?case by simp
next
  case (Cons t ts)
  have "segs \<noteq> []" using Cons.prems by auto
  then have "time (segs ! (length segs - 1)) = time (last segs)" by (simp add: last_conv_nth)
  moreover have "i < length segs - 1" "length segs - 1 < length segs" "t < time (last segs)"
    using Cons.prems by auto
  ultimately obtain j where j: "getSegment segs i t = Inr j" "j < length segs - 1"
    using getSegment_returns [of i "length segs - 1" segs t] by auto
  then have "j + 1 < length segs" by arith
  with Cons.IH [of j] Cons.prems obtain js where "getSegment_calls segs j ts = Inr js"
    by auto
  with j show ?case by (simp add: bindF_def)
qed

text \<open>
  Claim C7. \<open>getSegment\<close> moves its cursor forward only: it passes every segment whose
  successor has a time at most the elapsed time, stops before the first successor that
  lies later, and returns the position reached. Along successive calls on one cursor
  the positions returned never decrease (whatever the order of the elapsed times, so
  in particular when they do not decrease). A call returns whenever a later segment
  lies after the elapsed time, as the sentinel does for every time below its own.
\<close>

theorem getSegment_forward_only:
  "(getSegment_calls segs i ts = Inr js \<longrightarrow>
      sorted (i # js) \<and> length js = length ts
      \<and> (\<forall>n < length ts.
           (i # js) ! n \<le> js ! n \<and> js ! n + 1 < length segs
           \<and> (\<forall>k. (i # js) ! n < k \<and> k \<le> js ! n \<longrightarrow> time (segs ! k) \<le> ts ! n)
           \<and> ts ! n < time (segs ! (js ! n + 1))))
   \<and> (i + 1 < length segs \<and> (\<forall>t \<in> set ts. t < time (last segs))
        \<longrightarrow> (\<exists>js. getSegment_calls segs i ts = Inr js))"
  using getSegment_calls_Inr [of segs i ts js] getSegment_calls_returns [of i segs ts]
  by blast

theorem getSegment_forward_only_witness:
  "getSegment_calls
     [\<lparr>time = 0, Segment.beat = 0, velocity = 2, Segment.bpm = 120\<rparr>,
      \<lparr>time = 0, Segment.beat = 0, velocity = 2, Segment.bpm = 120\<rparr>,
      \<lparr>time = 2, Segment.beat = 4, velocity = 0, Segment.bpm = 120\<rparr>,
      \<lparr>time = 3, Segment.beat = 4, velocity = 2, Segment.bpm = 120\<rparr>,
      sentinel_segment] 0 [1, 2, 5/2, 7] = Inr [1, 2, 2, 3]
   \<and> sorted (0 # [1, 2, 2, 3 :: nat])"
  using getSegment_forward_only [of
     "[\<lparr>time = 0, Segment.beat = 0, velocity = 2, Segment.bpm = 120\<rparr>,
      \<lparr>time = 0, Segment.beat = 0, velocity = 2, Segment.bpm = 120\<rparr>,
      \<lparr>time = 2, Segment.beat = 4, velocity = 0, Segment.bpm = 120\<rparr>,
      \<lparr>time = 3, Segment.beat = 4, velocity = 2, Segment.bpm = 120\<rparr>,
      sentinel_segment]" 0 "[1, 2, 5/2, 7]" "[1, 2, 2, 3]"]
  by (simp add: getSegment.simps bindF_def sentinel_segment_def INT_MAX_def)

section \<open>Judgment\<close>









lemma manual_tick_is_late:
  assumes "0 < Player.bpm (player w)"
    "Player.beat (player w) \<ge> Chip.beat (BMS.lanes bms i ! begin (lanes (player w) i))
        + (JUDGE_BORDER_GOOD + 0.001) * Player.bpm (player w) / 60"
  shows "judge_delta bms i w \<le> - 0.1"
proof -
  define b where "b = Player.bpm (player w)"
  define x where "x = Chip.beat (BMS.lanes bms i ! begin (lanes (player w) i)) - Player.beat (player w)"
  have b: "0 < b" using assms(1) by (simp add: b_def)
  have "x \<le> - (0.101 * b / 60)"
    using assms(2) by (simp add: x_def b_def JUDGE_BORDER_GOOD_def)
  then have "x * 60 \<le> - (0.101 * b)" by simp
  then have "x * 60 / b \<le> - (0.101 * b) / b"
    using b by (intro divide_right_mono) simp_all
  also have "\<dots> = - 0.101" using b by simp
  finally show ?thesis by (simp add: judge_delta_def x_def b_def)
qed




section \<open>Chart parser\<close>

lemma calcChip_scan_Inr:
  "calcChip_scan chips i0 b = Inr i \<Longrightarrow>
     i0 \<le> i \<and> i < length chips \<and> (\<forall>k. i0 \<le> k \<and> k < i \<longrightarrow> Chip.beat (chips ! k) \<le> b)
     \<and> b < Chip.beat (chips ! i)"
proof (induction chips i0 b rule: calcChip_scan.induct)
  case (1 chips i0 b)
  show ?case
  proof (cases "Chip.beat (chips ! i0) \<le> b")
    case True
    with "1.prems" have run: "calcChip_scan chips (Suc i0) b = Inr i" and len: "i0 < length chips"
      by (simp_all add: calcChip_scan.simps [of chips i0 b] split: if_splits)
    from "1.IH" [OF _ True run] len
    have ih: "Suc i0 \<le> i" "i < length chips"
      "\<forall>k. Suc i0 \<le> k \<and> k < i \<longrightarrow> Chip.beat (chips ! k) \<le> b" "b < Chip.beat (chips ! i)"
      by simp_all
    have "Chip.beat (chips ! k) \<le> b" if "i0 \<le> k" "k < i" for k
      using that ih(3) True by (cases "k = i0") auto
    with ih show ?thesis by auto
  next
    case False
    with "1.prems" show ?thesis
      by (simp add: calcChip_scan.simps [of chips i0 b] split: if_splits)
  qed
qed

lemma calcChip_scan_returns:
  "i0 \<le> k \<Longrightarrow> k < length chips \<Longrightarrow> b < Chip.beat (chips ! k) \<Longrightarrow>
     \<exists>i. calcChip_scan chips i0 b = Inr i \<and> i \<le> k"
proof (induction chips i0 b rule: calcChip_scan.induct)
  case (1 chips i0 b)
  show ?case
  proof (cases "Chip.beat (chips ! i0) \<le> b")
    case True
    with "1.prems" have "Suc i0 \<le> k" by (cases "k = i0") auto
    with "1.IH" [OF _ True] "1.prems" True show ?thesis
      by (simp add: calcChip_scan.simps [of chips i0 b])
  next
    case False
    with "1.prems" show ?thesis
      by (simp add: calcChip_scan.simps [of chips i0 b])
  qed
qed

lemma calcChip_token_00:
  "token_at notation c = ''00'' \<Longrightarrow>
     calcChip_token bms m notation channel init len c st = Inr st"
  by (cases st) (simp add: calcChip_token_def token_at_def Let_def)

lemma calcChip_token_cases:
  assumes "calcChip_token bms m notation channel init len c (chips, i0, n) = Inr (chips', i, n')"
    and "token_at notation c \<noteq> ''00''"
  shows "m < BEATS_SIZE
     \<and> calcChip_scan chips i0 (init + real c * beats bms m / real len) = Inr i
     \<and> ((\<exists>x v. chips' = insert_at chips i
             \<lparr>Chip.beat = init + real c * beats bms m / real len, beat2 = x, value = v\<rparr>)
         \<or> (i \<noteq> 0 \<and> chips' = chips[i - 1 := (chips ! (i - 1))
                \<lparr>beat2 := init + real c * beats bms m / real len\<rparr>])
         \<or> chips' = chips)"
  using assms
  by (auto simp: calcChip_token_def token_at_def Let_def bindF_Inr split: if_splits)

lemma placed_mono: "placed B st \<Longrightarrow> B \<le> B' \<Longrightarrow> placed B' st"
  by (cases st) (fastforce simp: placed_def)

lemma sorted_insert_at:
  assumes "sorted (map Chip.beat chips)" "i < length chips"
    "\<forall>k<i. Chip.beat (chips ! k) \<le> b" "b < Chip.beat (chips ! i)" "Chip.beat chip = b"
  shows "sorted (map Chip.beat (insert_at chips i chip))"
proof -
  have low: "x \<le> b" if "x \<in> set (map Chip.beat (take i chips))" for x
  proof -
    from that obtain k where "k < i" "k < length chips" "x = Chip.beat (chips ! k)"
      by (auto simp: in_set_conv_nth)
    with assms(3) show ?thesis by simp
  qed
  have high: "b \<le> y" if "y \<in> set (map Chip.beat (drop i chips))" for y
  proof -
    from that obtain k where "k < length chips - i" and y: "y = Chip.beat (chips ! (i + k))"
      by (auto simp: in_set_conv_nth)
    then have k: "i + k < length chips" "y = Chip.beat (chips ! (i + k))" by simp_all
    have "map Chip.beat chips ! i \<le> map Chip.beat chips ! (i + k)"
      using assms(1) k(1) by (intro sorted_nth_mono) simp_all
    with k assms(2,4) show ?thesis by simp
  qed
  have "sorted (map Chip.beat (take i chips))" "sorted (map Chip.beat (drop i chips))"
    using assms(1) by (simp_all add: sorted_wrt_take sorted_wrt_drop flip: take_map drop_map)
  then show ?thesis
    using low high assms(5)
    by (fastforce simp: insert_at_def sorted_append)
qed

lemma map_beat_close:
  "map Chip.beat (chips[j := (chips ! j)\<lparr>beat2 := b\<rparr>]) = map Chip.beat chips"
proof (cases "j < length chips")
  case True
  then have "(map Chip.beat chips)[j := map Chip.beat chips ! j] = map Chip.beat chips"
    by (simp only: list_update_id)
  with True show ?thesis by (simp add: map_update)
next
  case False
  then have "chips[j := (chips ! j)\<lparr>beat2 := b\<rparr>] = chips"
    by (intro list_update_beyond) simp
  then show ?thesis by simp
qed

lemma nth_insert_at_below: "k < i \<Longrightarrow> i \<le> length chips \<Longrightarrow> insert_at chips i chip ! k = chips ! k"
  by (simp add: insert_at_def nth_append)

lemma calcChip_token_placed:
  assumes tok: "calcChip_token bms m notation channel init len c st = Inr st'"
    and inv: "placed B st" and le: "B \<le> init + real c * beats bms m / real len"
  shows "placed (init + real c * beats bms m / real len) st'"
proof (cases "token_at notation c = ''00''")
  case True
  with tok have "st' = st" by (simp add: calcChip_token_00)
  with inv le show ?thesis by (simp add: placed_mono)
next
  case False
  define b where "b = init + real c * beats bms m / real len"
  obtain chips i0 n where st: "st = (chips, i0, n)" by (cases st)
  obtain chips' i n' where st': "st' = (chips', i, n')" by (cases st')
  from calcChip_token_cases [OF tok [unfolded st st'] False]
  have scan: "calcChip_scan chips i0 b = Inr i"
    and out: "(\<exists>x v. chips' = insert_at chips i \<lparr>Chip.beat = b, beat2 = x, value = v\<rparr>)
         \<or> (i \<noteq> 0 \<and> chips' = chips[i - 1 := (chips ! (i - 1))\<lparr>beat2 := b\<rparr>])
         \<or> chips' = chips"
    by (simp_all add: b_def)
  note sc = calcChip_scan_Inr [OF scan]
  have srt: "sorted (map Chip.beat chips)"
    and old: "\<forall>k<i0. k < length chips \<longrightarrow> Chip.beat (chips ! k) \<le> B"
    using inv by (simp_all add: placed_def st)
  have below: "Chip.beat (chips ! k) \<le> b" if "k < i" for k
  proof (cases "k < i0")
    case True
    with old sc that le show ?thesis by (fastforce simp: b_def)
  next
    case False
    with sc that show ?thesis by simp
  qed
  from out show ?thesis
  proof (elim disjE exE conjE)
    fix x v
    assume ins: "chips' = insert_at chips i \<lparr>Chip.beat = b, beat2 = x, value = v\<rparr>"
    have "sorted (map Chip.beat chips')"
      unfolding ins using srt sc below by (intro sorted_insert_at) simp_all
    moreover have "Chip.beat (chips' ! k) \<le> b" if "k < i" for k
      using that below sc by (simp add: ins nth_insert_at_below)
    ultimately show ?thesis by (simp add: placed_def st' b_def)
  next
    assume "i \<noteq> 0" and cl: "chips' = chips[i - 1 := (chips ! (i - 1))\<lparr>beat2 := b\<rparr>]"
    have "map Chip.beat chips' = map Chip.beat chips" by (simp add: cl map_beat_close)
    moreover have "Chip.beat (chips' ! k) = Chip.beat (chips ! k)" if "k < length chips" for k
      using that by (cases "k = i - 1") (simp_all add: cl)
    ultimately show ?thesis
      using srt below sc by (simp add: placed_def st' b_def)
  next
    assume "chips' = chips"
    with srt below show ?thesis by (simp add: placed_def st' b_def)
  qed
qed

lemma calcChip_loop_placed:
  assumes "calcChip_loop bms m notation channel init len cs st = Inr st'"
    and "placed B st" and "sorted cs" and "\<forall>c \<in> set cs. B \<le> init + real c * beats bms m / real len"
    and "0 \<le> beats bms m"
  shows "\<exists>B'. placed B' st'"
  using assms(1-4)
proof (induction cs arbitrary: st B)
  case Nil
  then show ?case by auto
next
  case (Cons c cs)
  from Cons.prems(1) obtain st1 where
    tok: "calcChip_token bms m notation channel init len c st = Inr st1"
    and rest: "calcChip_loop bms m notation channel init len cs st1 = Inr st'"
    by (auto simp: bindF_Inr)
  have "placed (init + real c * beats bms m / real len) st1"
    using calcChip_token_placed [OF tok Cons.prems(2)] Cons.prems(4) by simp
  moreover have "init + real c * beats bms m / real len \<le> init + real c' * beats bms m / real len"
    if "c' \<in> set cs" for c'
  proof -
    have "c \<le> c'" using Cons.prems(3) that by auto
    then have "real c * beats bms m \<le> real c' * beats bms m"
      using assms(5) by (intro mult_right_mono) simp_all
    then show ?thesis by (simp add: divide_right_mono)
  qed
  ultimately show ?case
    using Cons.IH [OF rest] Cons.prems(3) by auto
qed

lemma calcChip_sorted:
  assumes "calcChip chips m notation bms channel = Inr (chips', bms')"
    and "sorted (map Chip.beat chips)" and "\<forall>k. 0 \<le> beats bms k"
  shows "sorted (map Chip.beat chips')"
proof -
  define init where "init = sum_list (map (beats bms) [0..<m])"
  define len where "len = length notation div 2"
  from assms(1) obtain i n where
    loop: "calcChip_loop bms m notation channel init len [0..<len] (chips, 0, BMS.totalNotes bms)
             = Inr (chips', i, n)"
    by (auto simp: calcChip_def Let_def bindF_Inr init_def len_def split: if_splits)
  have "placed init (chips, 0, BMS.totalNotes bms)"
    using assms(2) by (simp add: placed_def)
  moreover have "init \<le> init + real c * beats bms m / real len" for c
    using assms(3) by simp
  ultimately obtain B' where "placed B' (chips', i, n)"
    using calcChip_loop_placed [OF loop, of init] assms(3) by auto
  then show ?thesis by (simp add: placed_def)
qed

lemma calcChip_bms:
  "calcChip chips m notation bms channel = Inr (chips', bms') \<Longrightarrow>
     \<exists>n. bms' = bms\<lparr>BMS.totalNotes := n\<rparr>"
  by (auto simp: calcChip_def Let_def bindF_Inr split: if_splits)

lemma parseBMSChannel_shape:
  assumes "parseBMSChannel bms line = Inr bms'"
  obtains (same) "bms' = bms"
  | (bgm) m3 measure channel chips bms1 where
      "calcChip (bgms bms) measure m3 bms channel = Inr (chips, bms1)"
      "bms' = bms1\<lparr>bgms := chips\<rparr>"
  | (bpm) m3 measure channel chips bms1 where
      "calcChip (bpms bms) measure m3 bms channel = Inr (chips, bms1)"
      "bms' = bms1\<lparr>bpms := chips\<rparr>"
  | (lane) c m3 measure channel chips bms1 where
      "calcChip (BMS.lanes bms c) measure m3 bms channel = Inr (chips, bms1)"
      "bms' = bms1\<lparr>BMS.lanes := (BMS.lanes bms1)(c := chips)\<rparr>"
proof (cases "match_channel line")
  case None
  with assms have "bms' = bms" by (simp add: parseBMSChannel_def)
  then show ?thesis by (rule same)
next
  case (Some g)
  obtain m1 m2 m3 where g: "g = (m1, m2, m3)" by (cases g)
  from assms Some g obtain channel where ch: "stoi m2 10 = Inr channel"
    by (auto simp: parseBMSChannel_def bindF_Inr)
  consider (c1) "channel = 1"
    | (c2) "channel \<noteq> 1" "channel = 3 \<or> (8 \<le> channel \<and> channel \<le> 9)"
    | (c3) "channel \<noteq> 1" "\<not> (channel = 3 \<or> (8 \<le> channel \<and> channel \<le> 9))" "note_channel channel"
    | (c4) "channel \<noteq> 1" "\<not> (channel = 3 \<or> (8 \<le> channel \<and> channel \<le> 9))"
        "\<not> note_channel channel" "long_channel channel"
    | (c5) "channel \<noteq> 1" "\<not> (channel = 3 \<or> (8 \<le> channel \<and> channel \<le> 9))"
        "\<not> note_channel channel" "\<not> long_channel channel"
    by blast
  then show ?thesis
  proof cases
    case c1
    with assms Some g ch obtain measure chips bms1 where
      "calcChip (bgms bms) (nat measure) m3 bms channel = Inr (chips, bms1)"
      "bms' = bms1\<lparr>bgms := chips\<rparr>"
      by (auto simp: parseBMSChannel_def bindF_Inr)
    then show ?thesis by (rule bgm)
  next
    case c2
    with assms Some g ch obtain measure chips bms1 where
      "calcChip (bpms bms) (nat measure) m3 bms channel = Inr (chips, bms1)"
      "bms' = bms1\<lparr>bpms := chips\<rparr>"
      by (auto simp: parseBMSChannel_def bindF_Inr)
    then show ?thesis by (rule bpm)
  next
    case c3
    with assms Some g ch obtain measure chips bms1 where
      "calcChip (BMS.lanes bms (nat (lane_index channel 10))) (nat measure) m3 bms channel
         = Inr (chips, bms1)"
      "bms' = bms1\<lparr>BMS.lanes := (BMS.lanes bms1)(nat (lane_index channel 10) := chips)\<rparr>"
      by (auto simp: parseBMSChannel_def bindF_Inr Let_def)
    then show ?thesis by (rule lane)
  next
    case c4
    with assms Some g ch obtain measure chips bms1 where
      "calcChip (BMS.lanes bms (nat (lane_index channel 50))) (nat measure) m3 bms channel
         = Inr (chips, bms1)"
      "bms' = bms1\<lparr>BMS.lanes := (BMS.lanes bms1)(nat (lane_index channel 50) := chips)\<rparr>"
      by (auto simp: parseBMSChannel_def bindF_Inr Let_def)
    then show ?thesis by (rule lane)
  next
    case c5
    with assms Some g ch have "bms' = bms" by (simp add: parseBMSChannel_def bindF_def)
    then show ?thesis by (rule same)
  qed
qed

lemma parseBMSChannel_beats:
  assumes "parseBMSChannel bms line = Inr bms'"
  shows "beats bms' = beats bms"
  using assms
proof (cases rule: parseBMSChannel_shape)
  case same
  then show ?thesis by simp
next
  case (bgm m3 measure channel chips bms1)
  with calcChip_bms [OF bgm(1)] show ?thesis by auto
next
  case (bpm m3 measure channel chips bms1)
  with calcChip_bms [OF bpm(1)] show ?thesis by auto
next
  case (lane c m3 measure channel chips bms1)
  with calcChip_bms [OF lane(1)] show ?thesis by auto
qed

lemma parseBMSChannel_sorted:
  assumes "parseBMSChannel bms line = Inr bms'" "sorted_chart bms" "\<forall>k. 0 \<le> beats bms k"
  shows "sorted_chart bms'"
  using assms(1)
proof (cases rule: parseBMSChannel_shape)
  case same
  with assms(2) show ?thesis by simp
next
  case (bgm m3 measure channel chips bms1)
  from calcChip_bms [OF bgm(1)] obtain n where b1: "bms1 = bms\<lparr>BMS.totalNotes := n\<rparr>" ..
  have "sorted (map Chip.beat chips)"
    using calcChip_sorted [OF bgm(1)] assms(2,3) by (simp add: sorted_chart_def)
  with assms(2) show ?thesis by (simp add: bgm(2) b1 sorted_chart_def)
next
  case (bpm m3 measure channel chips bms1)
  from calcChip_bms [OF bpm(1)] obtain n where b1: "bms1 = bms\<lparr>BMS.totalNotes := n\<rparr>" ..
  with assms(2) show ?thesis by (simp add: bpm(2) sorted_chart_def)
next
  case (lane c m3 measure channel chips bms1)
  from calcChip_bms [OF lane(1)] obtain n where b1: "bms1 = bms\<lparr>BMS.totalNotes := n\<rparr>" ..
  have "sorted (map Chip.beat chips)" if "c < LANES_COUNT"
    using calcChip_sorted [OF lane(1)] assms(2,3) that by (simp add: sorted_chart_def)
  with assms(2) show ?thesis by (simp add: lane(2) b1 sorted_chart_def)
qed

lemma parseBMSCommand_shape:
  assumes "parseBMSCommand bms line = Inr bms'"
  obtains (channel) "parseBMSChannel bms line = Inr bms'"
  | (header) "beats bms' = beats bms" "bgms bms' = bgms bms" "BMS.lanes bms' = BMS.lanes bms"
      "BMS.totalNotes bms' = BMS.totalNotes bms"
proof (cases "match_command line")
  case None
  with assms have "parseBMSChannel bms line = Inr bms'" by (simp add: parseBMSCommand_def)
  then show ?thesis by (rule channel)
next
  case (Some g)
  obtain m1 m2 where g: "g = (m1, m2)" by (cases g)
  have "beats bms' = beats bms \<and> bgms bms' = bgms bms \<and> BMS.lanes bms' = BMS.lanes bms
      \<and> BMS.totalNotes bms' = BMS.totalNotes bms"
  proof (cases "match_key m1")
    case None
    with assms Some g show ?thesis
      by (auto simp: parseBMSCommand_def bindF_Inr split: if_splits)
  next
    case (Some k)
    obtain n1 n2 where k: "k = (n1, n2)" by (cases k)
    with assms \<open>match_command line = Some g\<close> g Some show ?thesis
      by (auto simp: parseBMSCommand_def bindF_Inr split: if_splits)
  qed
  then show ?thesis by (intro header) simp_all
qed

lemma parseBMSCommand_beats:
  assumes "parseBMSCommand bms line = Inr bms'"
  shows "beats bms' = beats bms"
  using assms
proof (cases rule: parseBMSCommand_shape)
  case channel
  then show ?thesis by (rule parseBMSChannel_beats)
next
  case header
  then show ?thesis by simp
qed

lemma parseBMSCommand_sorted:
  assumes "parseBMSCommand bms line = Inr bms'" "sorted_chart bms" "\<forall>k. 0 \<le> beats bms k"
  shows "sorted_chart bms' \<and> beats bms' = beats bms"
  using assms(1)
proof (cases rule: parseBMSCommand_shape)
  case channel
  with parseBMSChannel_sorted [OF channel assms(2,3)] parseBMSChannel_beats [OF channel]
  show ?thesis by simp
next
  case header
  with assms(2) show ?thesis by (simp add: sorted_chart_def)
qed

lemma each_line_parseBMSCommand_sorted:
  assumes "each_line parseBMSCommand bms src = Inr bms'" "sorted_chart bms" "\<forall>k. 0 \<le> beats bms k"
  shows "sorted_chart bms' \<and> beats bms' = beats bms"
  using assms
proof (induction src arbitrary: bms)
  case Nil
  then show ?case by simp
next
  case (Cons line rest)
  from Cons.prems(1) obtain bms1 where one: "parseBMSCommand bms line = Inr bms1"
    and more: "each_line parseBMSCommand bms1 rest = Inr bms'"
    by (auto simp: bindF_Inr)
  from parseBMSCommand_sorted [OF one Cons.prems(2,3)]
  have "sorted_chart bms1" "beats bms1 = beats bms" by simp_all
  with Cons.IH [OF more] Cons.prems(3) show ?case by simp
qed

lemma decimal_value_nonneg: "0 \<le> decimal_value s"
  by (simp add: decimal_value_def Let_def)

lemma hex_value_nonneg: "0 \<le> hex_value s"
  by (simp add: hex_value_def Let_def)

lemma stof_nonneg:
  assumes "stof s = Inr x" "CHR ''-'' \<notin> set s"
  shows "0 \<le> x"
proof -
  have "set (dropWhile is_space s) \<subseteq> set s" by (auto dest: set_dropWhileD)
  with assms(2) have "CHR ''-'' \<notin> set (dropWhile is_space s)" by auto
  moreover have "take 1 xs \<noteq> ''-''" if "CHR ''-'' \<notin> set xs" for xs :: string
    using that by (cases xs) auto
  ultimately have "take 1 (dropWhile is_space s) \<noteq> ''-''" by blast
  with assms(1) have "\<exists>t. x = decimal_value t \<or> x = hex_value t"
    by (auto simp: stof_def Let_def split: if_splits)
  then show ?thesis by (auto simp: decimal_value_nonneg hex_value_nonneg)
qed

lemma match_measure_Some:
  assumes "match_measure line = Some (m1, m2)"
  shows "length m1 = 3" "list_all is_digit m1" "m2 \<noteq> []"
    "list_all (\<lambda>c. c = CHR ''.'' \<or> is_digit c) m2"
  using assms by (auto simp: match_measure_def Let_def split: if_splits)

lemma is_digit_props:
  assumes "is_digit c"
  shows "\<not> is_space c" "c \<noteq> CHR ''-''" "c \<noteq> CHR ''+''" "digit_val c < 10"
  using assms by (auto simp: is_digit_def is_space_def digit_val_def)

lemma digits_val_bound: "list_all is_digit ds \<Longrightarrow> digits_val 10 ds < 10 ^ length ds"
proof (induction ds rule: rev_induct)
  case Nil
  then show ?case by (simp add: digits_val_def)
next
  case (snoc c ds)
  then have "digits_val 10 ds < 10 ^ length ds" "digit_val c < 10"
    by (simp_all add: is_digit_props)
  then have "digits_val 10 ds * 10 + digit_val c < 10 ^ length ds * 10" by simp
  then show ?case by (simp add: digits_val_def)
qed

lemma stoi_digits:
  assumes "list_all is_digit ds" "ds \<noteq> []" "length ds \<le> 9"
  shows "stoi ds 10 = Inr (int (digits_val 10 ds))"
proof -
  obtain c cs where ds: "ds = c # cs" using assms(2) by (cases ds) auto
  with assms(1) have c: "is_digit c" by simp
  have sp: "dropWhile is_space ds = ds" using c by (simp add: ds is_digit_props)
  have sign: "take 1 ds \<noteq> ''-''" "take 1 ds \<noteq> ''+''" using c by (simp_all add: ds is_digit_props)
  have "\<forall>x \<in> set ds. digit_val x < 10"
    using assms(1) by (auto simp: list_all_iff is_digit_props)
  then have tw: "takeWhile (\<lambda>c. digit_val c < 10) ds = ds" by (simp add: takeWhile_eq_all_conv)
  have "digits_val 10 ds < 10 ^ length ds" using assms(1) by (rule digits_val_bound)
  also have "\<dots> \<le> (10 :: nat) ^ 9" using assms(3) by (intro power_increasing) simp_all
  finally have "int_range (int (digits_val 10 ds))" by (simp add: int_range_def)
  then show ?thesis using assms(2) sign by (simp add: stoi_def Let_def sp tw)
qed

lemma parseBMSMeasure_unfold:
  "parseBMSMeasure bms line =
     (case match_measure line of
        None \<Rightarrow> Inr bms
      | Some (m1, m2) \<Rightarrow>
          (case stof m2 of
             Inl e \<Rightarrow> Inl e
           | Inr x \<Rightarrow>
               if FLT_MAX < x * 4 then Inl NonFinite
               else Inr (bms\<lparr>beats := (beats bms)(digits_val 10 m1 := x * 4)\<rparr>)))"
proof (cases "match_measure line")
  case None
  then show ?thesis by (simp add: parseBMSMeasure_def)
next
  case (Some g)
  obtain m1 m2 where g: "g = (m1, m2)" by (cases g)
  note mm = match_measure_Some [OF Some [unfolded g]]
  have k: "stoi m1 10 = Inr (int (digits_val 10 m1))"
  proof (rule stoi_digits)
    show "list_all is_digit m1" by (rule mm(2))
    show "m1 \<noteq> []" using mm(1) by auto
    show "length m1 \<le> 9" using mm(1) by simp
  qed
  have "digits_val 10 m1 < 10 ^ length m1" using mm(2) by (rule digits_val_bound)
  then have lt: "digits_val 10 m1 < 1000" using mm(1) by simp
  show ?thesis
    using lt by (simp add: parseBMSMeasure_def Some g k bindF_def BEATS_SIZE_def split: sum.splits)
qed

lemma parseBMSMeasure_Inr:
  assumes "parseBMSMeasure bms line = Inr bms'"
  shows "bms' = (case directive_of line of None \<Rightarrow> bms
                 | Some (m, x) \<Rightarrow> bms\<lparr>beats := (beats bms)(m := x * 4)\<rparr>)"
  using assms unfolding parseBMSMeasure_unfold directive_of_def
  by (auto split: option.splits sum.splits if_splits)

lemma directive_of_nonneg:
  assumes "directive_of line = Some (m, x)"
  shows "0 \<le> x"
proof (cases "match_measure line")
  case None
  with assms show ?thesis by (simp add: directive_of_def)
next
  case (Some g)
  obtain m1 m2 where g: "g = (m1, m2)" by (cases g)
  have x: "stof m2 = Inr x"
    using assms Some g by (cases "stof m2") (simp_all add: directive_of_def)
  have "c \<noteq> CHR ''-''" if "c = CHR ''.'' \<or> is_digit c" for c
    using that by (auto simp: is_digit_def)
  moreover have "\<forall>c \<in> set m2. c = CHR ''.'' \<or> is_digit c"
    using match_measure_Some(4) [OF Some [unfolded g]] by (simp only: list_all_iff)
  ultimately have "CHR ''-'' \<notin> set m2" by blast
  with x show ?thesis by (rule stof_nonneg)
qed

lemma pass1_beats:
  assumes "each_line parseBMSMeasure bms src = Inr bms'"
  shows "beats bms' m =
     (case filter (\<lambda>d. fst d = m) (List.map_filter directive_of src) of
        [] \<Rightarrow> beats bms m
      | d # ds \<Rightarrow> snd (last (d # ds)) * 4)"
  using assms
proof (induction src arbitrary: bms)
  case Nil
  then show ?case by (simp add: map_filter_simps)
next
  case (Cons line rest)
  from Cons.prems obtain bms1 where one: "parseBMSMeasure bms line = Inr bms1"
    and more: "each_line parseBMSMeasure bms1 rest = Inr bms'"
    by (auto simp: bindF_Inr)
  define fs where "fs = filter (\<lambda>d. fst d = m) (List.map_filter directive_of rest)"
  have ih: "beats bms' m = (case fs of [] \<Rightarrow> beats bms1 m | d # ds \<Rightarrow> snd (last (d # ds)) * 4)"
    using Cons.IH [OF more] by (simp only: fs_def)
  note b1 = parseBMSMeasure_Inr [OF one]
  show ?case
  proof (cases "directive_of line")
    case None
    then have same: "bms1 = bms" using b1 by simp
    have f: "filter (\<lambda>d. fst d = m) (List.map_filter directive_of (line # rest)) = fs"
      using None by (simp add: map_filter_simps fs_def)
    show ?thesis
      unfolding f ih same by (rule refl)
  next
    case (Some d)
    obtain k x where d: "d = (k, x)" by (cases d)
    have b1': "beats bms1 = (beats bms)(k := x * 4)" using b1 Some d by simp
    have f: "filter (\<lambda>d. fst d = m) (List.map_filter directive_of (line # rest))
        = (if k = m then (k, x) # fs else fs)"
      using Some d by (simp add: map_filter_simps fs_def)
    show ?thesis
      unfolding f ih b1' by (cases fs) simp_all
  qed
qed

lemma pass1_nonneg:
  assumes "each_line parseBMSMeasure bms src = Inr bms'" "\<forall>k. 0 \<le> beats bms k"
  shows "\<forall>k. 0 \<le> beats bms' k"
  using assms
proof (induction src arbitrary: bms)
  case Nil
  then show ?case by simp
next
  case (Cons line rest)
  from Cons.prems obtain bms1 where one: "parseBMSMeasure bms line = Inr bms1"
    and more: "each_line parseBMSMeasure bms1 rest = Inr bms'"
    by (auto simp: bindF_Inr)
  have "\<forall>k. 0 \<le> beats bms1 k"
  proof (cases "directive_of line")
    case None
    then show ?thesis using parseBMSMeasure_Inr [OF one] Cons.prems(2) by simp
  next
    case (Some d)
    obtain m x where d: "d = (m, x)" by (cases d)
    have "0 \<le> x" using directive_of_nonneg [of line m x] Some d by simp
    then show ?thesis using parseBMSMeasure_Inr [OF one] Cons.prems(2) Some d by simp
  qed
  with Cons.IH [OF more] show ?case by simp
qed

lemma pass1_rest:
  assumes "each_line parseBMSMeasure bms src = Inr bms'"
  shows "bgms bms' = bgms bms \<and> BMS.lanes bms' = BMS.lanes bms \<and> bpms bms' = bpms bms
     \<and> BMS.totalNotes bms' = BMS.totalNotes bms \<and> lnobj bms' = lnobj bms
     \<and> BMS.segments bms' = BMS.segments bms"
  using assms
proof (induction src arbitrary: bms)
  case Nil
  then show ?case by simp
next
  case (Cons line rest)
  from Cons.prems obtain bms1 where one: "parseBMSMeasure bms line = Inr bms1"
    and more: "each_line parseBMSMeasure bms1 rest = Inr bms'"
    by (auto simp: bindF_Inr)
  have "bgms bms1 = bgms bms \<and> BMS.lanes bms1 = BMS.lanes bms \<and> bpms bms1 = bpms bms
     \<and> BMS.totalNotes bms1 = BMS.totalNotes bms \<and> lnobj bms1 = lnobj bms
     \<and> BMS.segments bms1 = BMS.segments bms"
    using parseBMSMeasure_Inr [OF one] by (cases "directive_of line") auto
  with Cons.IH [OF more] show ?case by simp
qed

lemma parseBMS_sorted:
  assumes "parseBMS src = Inr bms"
  shows "sorted_chart bms"
proof -
  from assms obtain bms1 bms2 segs where
    p1: "each_line parseBMSMeasure chart_init src = Inr bms1"
    and p2: "each_line parseBMSCommand bms1 src = Inr bms2"
    and r: "bms = bms2\<lparr>BMS.segments := segs\<rparr>"
    by (auto simp: parseBMS_def bindF_Inr)
  have "sorted_chart chart_init"
    by (simp add: sorted_chart_def chart_init_def BMS_zero_def)
  with pass1_rest [OF p1] have "sorted_chart bms1" by (simp add: sorted_chart_def)
  moreover have "\<forall>k. 0 \<le> beats bms1 k"
    using pass1_nonneg [OF p1] by (simp add: chart_init_def)
  ultimately have "sorted_chart bms2"
    using each_line_parseBMSCommand_sorted [OF p2] by simp
  then show ?thesis by (simp add: r sorted_chart_def)
qed

lemma sum_list_upt: "sum_list (map f [0..<m]) = (\<Sum>k<m. f k)"
  by (simp add: interv_sum_list_conv_sum_set_nat lessThan_atLeast0)

lemma each_line_parseBMSCommand_beats:
  "each_line parseBMSCommand bms src = Inr bms' \<Longrightarrow> beats bms' = beats bms"
proof (induction src arbitrary: bms)
  case Nil
  then show ?case by simp
next
  case (Cons line rest)
  from Cons.prems obtain bms1 where one: "parseBMSCommand bms line = Inr bms1"
    and more: "each_line parseBMSCommand bms1 rest = Inr bms'"
    by (auto simp: bindF_Inr)
  from Cons.IH [OF more] parseBMSCommand_beats [OF one] show ?case by simp
qed

lemma pass1_beat_lengths:
  assumes "each_line parseBMSMeasure bms src = Inr bms'" "beats bms = (\<lambda>_. 4)"
  shows "beats bms' = beat_lengths src"
proof
  fix m
  show "beats bms' m = beat_lengths src m"
    unfolding pass1_beats [OF assms(1)] beat_lengths_def assms(2) by (rule refl)
qed

lemma length_insert_at: "length (insert_at chips i chip) = length chips + 1"
  by (simp add: insert_at_def)

lemma mset_beat_insert_at:
  "mset (map Chip.beat (insert_at chips i chip)) = add_mset (Chip.beat chip) (mset (map Chip.beat chips))"
proof -
  have "mset (map Chip.beat (take i chips)) + mset (map Chip.beat (drop i chips))
      = mset (map Chip.beat (take i chips @ drop i chips))"
    by (simp only: map_append mset_append)
  then show ?thesis by (simp add: insert_at_def del: mset_map)
qed

lemma calcChip_token_mset:
  assumes "calcChip_token bms m notation channel init len c (chips, i0, n) = Inr (chips', i, n')"
    and "token_at notation c \<noteq> ''00''"
  shows "mset (map Chip.beat chips') =
           add_mset (init + real c * beats bms m / real len) (mset (map Chip.beat chips))
         \<or> mset (map Chip.beat chips') = mset (map Chip.beat chips)"
  using calcChip_token_cases [OF assms]
  by (auto simp del: mset_map simp: mset_beat_insert_at map_beat_close)

lemma calcChip_token_inserts:
  assumes "calcChip_token bms m notation channel init len c (chips, i0, n) = Inr (chips', i, n')"
    and "token_at notation c \<noteq> ''00''"
    and "channel = 1 \<or> channel = 3 \<or> channel = 8 \<or> channel = 9
         \<or> (note_channel channel \<and> token_at notation c \<noteq> lnobj bms)"
  shows "mset (map Chip.beat chips') =
           add_mset (init + real c * beats bms m / real len) (mset (map Chip.beat chips))"
proof -
  have "\<exists>x v j. chips' = insert_at chips j
             \<lparr>Chip.beat = init + real c * beats bms m / real len, beat2 = x, value = v\<rparr>"
    using assms
    by (auto simp: calcChip_token_def token_at_def Let_def bindF_Inr split: if_splits)
  then show ?thesis by (auto simp del: mset_map simp: mset_beat_insert_at)
qed

lemma calcChip_loop_mset:
  assumes "calcChip_loop bms m notation channel init len cs st = Inr st'"
  shows "mset (map Chip.beat (fst st)) \<subseteq># mset (map Chip.beat (fst st'))
     \<and> mset (map Chip.beat (fst st')) \<subseteq>#
         mset (map Chip.beat (fst st))
         + mset (map (\<lambda>c. init + real c * beats bms m / real len)
              (filter (\<lambda>c. token_at notation c \<noteq> ''00'') cs))
     \<and> (channel = 1 \<or> channel = 3 \<or> channel = 8 \<or> channel = 9
          \<or> (note_channel channel
              \<and> lnobj bms \<notin> set (map (token_at notation)
                    (filter (\<lambda>c. token_at notation c \<noteq> ''00'') cs)))
        \<longrightarrow> mset (map Chip.beat (fst st')) =
              mset (map Chip.beat (fst st))
              + mset (map (\<lambda>c. init + real c * beats bms m / real len)
                   (filter (\<lambda>c. token_at notation c \<noteq> ''00'') cs)))"
  using assms
proof (induction cs arbitrary: st)
  case Nil
  then show ?case by simp
next
  case (Cons c cs)
  from Cons.prems obtain st1 where
    tok: "calcChip_token bms m notation channel init len c st = Inr st1"
    and rest: "calcChip_loop bms m notation channel init len cs st1 = Inr st'"
    by (auto simp: bindF_Inr)
  note ih = Cons.IH [OF rest]
  show ?case
  proof (cases "token_at notation c = ''00''")
    case True
    with tok have "st1 = st" by (simp add: calcChip_token_00)
    with ih True show ?thesis by simp
  next
    case False
    obtain chips i0 n where st: "st = (chips, i0, n)" by (cases st)
    obtain chips1 i n1 where st1: "st1 = (chips1, i, n1)" by (cases st1)
    define B where "B = init + real c * beats bms m / real len"
    have step: "mset (map Chip.beat chips1) = add_mset B (mset (map Chip.beat chips))
         \<or> mset (map Chip.beat chips1) = mset (map Chip.beat chips)"
      using calcChip_token_mset [OF tok [unfolded st st1] False] by (simp add: B_def)
    have ins: "mset (map Chip.beat chips1) = add_mset B (mset (map Chip.beat chips))"
      if "channel = 1 \<or> channel = 3 \<or> channel = 8 \<or> channel = 9
         \<or> (note_channel channel \<and> token_at notation c \<noteq> lnobj bms)"
      using calcChip_token_inserts [OF tok [unfolded st st1] False that] by (simp add: B_def)
    have a: "mset (map Chip.beat (fst st)) \<subseteq># mset (map Chip.beat (fst st'))"
    proof -
      have "mset (map Chip.beat chips) \<subseteq># mset (map Chip.beat chips1)"
        using step by auto
      with ih show ?thesis by (auto simp: st st1 intro: subset_mset.order_trans)
    qed
    have b: "mset (map Chip.beat (fst st')) \<subseteq>#
         mset (map Chip.beat (fst st))
         + mset (map (\<lambda>c. init + real c * beats bms m / real len)
              (filter (\<lambda>c. token_at notation c \<noteq> ''00'') (c # cs)))"
    proof -
      have "mset (map Chip.beat chips1) \<subseteq># add_mset B (mset (map Chip.beat chips))"
        using step by auto
      then have "mset (map Chip.beat chips1)
           + mset (map (\<lambda>c. init + real c * beats bms m / real len)
              (filter (\<lambda>c. token_at notation c \<noteq> ''00'') cs))
         \<subseteq># add_mset B (mset (map Chip.beat chips))
           + mset (map (\<lambda>c. init + real c * beats bms m / real len)
              (filter (\<lambda>c. token_at notation c \<noteq> ''00'') cs))"
        by (rule subset_mset.add_right_mono)
      with ih show ?thesis
        using False by (auto simp: st st1 B_def intro: subset_mset.order_trans)
    qed
    have e: "mset (map Chip.beat (fst st')) =
              mset (map Chip.beat (fst st))
              + mset (map (\<lambda>c. init + real c * beats bms m / real len)
                   (filter (\<lambda>c. token_at notation c \<noteq> ''00'') (c # cs)))"
      if "channel = 1 \<or> channel = 3 \<or> channel = 8 \<or> channel = 9
          \<or> (note_channel channel
              \<and> lnobj bms \<notin> set (map (token_at notation)
                    (filter (\<lambda>c. token_at notation c \<noteq> ''00'') (c # cs))))"
    proof -
      from that False have h1: "channel = 1 \<or> channel = 3 \<or> channel = 8 \<or> channel = 9
         \<or> (note_channel channel \<and> token_at notation c \<noteq> lnobj bms)"
        by auto
      from that False have h2: "channel = 1 \<or> channel = 3 \<or> channel = 8 \<or> channel = 9
          \<or> (note_channel channel
              \<and> lnobj bms \<notin> set (map (token_at notation)
                    (filter (\<lambda>c. token_at notation c \<noteq> ''00'') cs)))"
        by auto
      from ih h2 have "mset (map Chip.beat (fst st')) =
              mset (map Chip.beat (fst st1))
              + mset (map (\<lambda>c. init + real c * beats bms m / real len)
                   (filter (\<lambda>c. token_at notation c \<noteq> ''00'') cs))"
        by blast
      with ins [OF h1] show ?thesis
        using False by (simp add: st st1 B_def)
    qed
    from a b e show ?thesis by blast
  qed
qed

lemma pass1_returns:
  "(\<exists>bms1. each_line parseBMSMeasure bms0 src = Inr bms1) \<longleftrightarrow>
   (\<forall>line \<in> set src. \<forall>m1 m2. match_measure line = Some (m1, m2) \<longrightarrow>
      (\<exists>x. stof m2 = Inr x \<and> x * 4 \<le> FLT_MAX))"
proof (induction src arbitrary: bms0)
  case Nil
  show ?case by simp
next
  case (Cons line rest)
  show ?case
  proof (cases "match_measure line")
    case None
    then have "parseBMSMeasure bms0 line = Inr bms0" by (simp add: parseBMSMeasure_unfold)
    then show ?thesis using Cons.IH [of bms0] None by (simp add: bindF_def)
  next
    case (Some g)
    obtain m1 m2 where g: "g = (m1, m2)" by (cases g)
    show ?thesis
    proof (cases "stof m2")
      case (Inl e)
      then have "parseBMSMeasure bms0 line = Inl e" by (simp add: parseBMSMeasure_unfold Some g)
      then show ?thesis using Some g Inl by (auto simp: bindF_def)
    next
      case (Inr x)
      show ?thesis
      proof (cases "FLT_MAX < x * 4")
        case True
        then have "parseBMSMeasure bms0 line = Inl NonFinite"
          by (simp add: parseBMSMeasure_unfold Some g Inr)
        then show ?thesis using Some g Inr True by (auto simp: bindF_def)
      next
        case False
        then have "parseBMSMeasure bms0 line
            = Inr (bms0\<lparr>beats := (beats bms0)(digits_val 10 m1 := x * 4)\<rparr>)"
          by (simp add: parseBMSMeasure_unfold Some g Inr)
        then show ?thesis
          using Cons.IH [of "bms0\<lparr>beats := (beats bms0)(digits_val 10 m1 := x * 4)\<rparr>"]
            Some g Inr False
          by (simp add: bindF_def)
      qed
    qed
  qed
qed

text \<open>
  Claim C5, as the code has it. When the first pass returns, the multiplier of every
  directive \<open>#mmm02:x\<close> has converted and four times it is at most \<^verbatim>\<open>FLT_MAX\<close> (and
  the pass returns whenever that holds, by \<open>pass1_returns\<close>). It
  then leaves in \<open>beats\<close> the beat lengths the source declares: 4 by default, and four
  times the multiplier of a directive (of the last one when several lines name the same
  measure). The second pass never writes \<open>beats\<close>: a channel line is processed with
  the table built from the whole source, wherever the directive stands. A call of
  \<open>calcChip\<close> keeps every event of the vector and adds events of its tokens only:
  each has the beat \<open>token_beat\<close> of a token other than 00, that is the sum of the beat
  lengths of the measures before, plus \<open>c * beatLength m / length\<close>. On the channels
  1, 3, 8 and 9, and on a note channel whose tokens do not include \<open>LNOBJ\<close>, every
  such token adds exactly one event. A round of the loop skips a token 00 without any
  change; for another token it inserts the event at that beat, or writes that beat to
  \<open>beat2\<close> of the long note it closes.
\<close>

theorem two_pass_beat_lengths:
  assumes "each_line parseBMSMeasure bms0 src = Inr bms1" "beats bms0 = (\<lambda>_. 4)"
    "each_line parseBMSCommand bms1 pre = Inr b"
    "calcChip chips m notation b channel = Inr (chips', b')"
  shows "beats b = beat_lengths src
     \<and> (\<forall>line \<in> set src. \<forall>m1 m2. match_measure line = Some (m1, m2) \<longrightarrow>
          (\<exists>x. stof m2 = Inr x \<and> x * 4 \<le> FLT_MAX))
     \<and> mset (map Chip.beat chips) \<subseteq># mset (map Chip.beat chips')
     \<and> mset (map Chip.beat chips') \<subseteq>#
         mset (map Chip.beat chips) + mset (map (token_beat src m notation) (event_tokens notation))
     \<and> (inserts_always channel (lnobj b) notation \<longrightarrow>
          mset (map Chip.beat chips') =
            mset (map Chip.beat chips)
            + mset (map (token_beat src m notation) (event_tokens notation)))
     \<and> (token_at notation c = ''00'' \<longrightarrow>
          calcChip_token b m notation channel init len c st = Inr st)
     \<and> (token_at notation c \<noteq> ''00''
          \<and> calcChip_token b m notation channel (\<Sum>k<m. beat_lengths src k)
               (length notation div 2) c (chips0, i0, n) = Inr (chips1, i, n1)
        \<longrightarrow> (\<exists>x v. chips1 = insert_at chips0 i
                  \<lparr>Chip.beat = token_beat src m notation c, beat2 = x, value = v\<rparr>)
            \<or> (i \<noteq> 0 \<and> chips1 = chips0[i - 1 := (chips0 ! (i - 1))
                  \<lparr>beat2 := token_beat src m notation c\<rparr>])
            \<or> chips1 = chips0)"
proof -
  have b: "beats b = beat_lengths src"
    using each_line_parseBMSCommand_beats [OF assms(3)] pass1_beat_lengths [OF assms(1,2)]
    by simp
  have fin: "\<forall>line \<in> set src. \<forall>m1 m2. match_measure line = Some (m1, m2) \<longrightarrow>
          (\<exists>x. stof m2 = Inr x \<and> x * 4 \<le> FLT_MAX)"
    using pass1_returns [of bms0 src] assms(1) by blast
  define init where "init = (\<Sum>k<m. beat_lengths src k)"
  define len where "len = length notation div 2"
  have tb: "(\<lambda>c. init + real c * beats b m / real len) = token_beat src m notation"
    by (rule ext) (simp add: token_beat_def init_def len_def b)
  from assms(4) obtain j nn where
    loop: "calcChip_loop b m notation channel init len [0..<len] (chips, 0, BMS.totalNotes b)
             = Inr (chips', j, nn)"
    by (auto simp: calcChip_def Let_def bindF_Inr init_def len_def sum_list_upt b
        split: if_splits)
  have ev: "filter (\<lambda>c. token_at notation c \<noteq> ''00'') [0..<len] = event_tokens notation"
    by (simp only: event_tokens_def len_def)
  note inv = calcChip_loop_mset [OF loop, unfolded tb ev fst_conv]
  have sub: "mset (map Chip.beat chips) \<subseteq># mset (map Chip.beat chips')"
    "mset (map Chip.beat chips') \<subseteq>#
       mset (map Chip.beat chips) + mset (map (token_beat src m notation) (event_tokens notation))"
    using inv by blast+
  have eq: "mset (map Chip.beat chips') =
       mset (map Chip.beat chips) + mset (map (token_beat src m notation) (event_tokens notation))"
    if "inserts_always channel (lnobj b) notation"
    using inv that unfolding inserts_always_def by blast
  have zero: "calcChip_token b m notation channel init' len' c st = Inr st"
    if "token_at notation c = ''00''" for init' len'
    using that by (rule calcChip_token_00)
  have tok: "(\<exists>x v. chips1 = insert_at chips0 i
                  \<lparr>Chip.beat = token_beat src m notation c, beat2 = x, value = v\<rparr>)
            \<or> (i \<noteq> 0 \<and> chips1 = chips0[i - 1 := (chips0 ! (i - 1))
                  \<lparr>beat2 := token_beat src m notation c\<rparr>])
            \<or> chips1 = chips0"
    if "token_at notation c \<noteq> ''00''"
      "calcChip_token b m notation channel (\<Sum>k<m. beat_lengths src k)
               (length notation div 2) c (chips0, i0, n) = Inr (chips1, i, n1)"
    using calcChip_token_cases [OF that(2,1)] by (simp add: b token_beat_def)
  from b fin sub eq zero tok show ?thesis by blast
qed

text \<open>
  A channel line for measure 1 followed by the directive that halves measure 1: the two
  notes lie at beats 4 and 5, not at 4 and 6, and so do two background cues that a later
  call places in that measure.
\<close>

theorem two_pass_beat_lengths_witness:
  "\<exists>bms1 b chips' b'.
      each_line parseBMSMeasure chart_init [''#00111:0102'', ''#00102:0.5''] = Inr bms1
      \<and> each_line parseBMSCommand bms1 [''#00111:0102'', ''#00102:0.5''] = Inr b
      \<and> calcChip (bgms b) 1 ''0A000B00'' b 1 = Inr (chips', b')
      \<and> beats b = beat_lengths [''#00111:0102'', ''#00102:0.5'']
      \<and> beat_lengths [''#00111:0102'', ''#00102:0.5''] 0 = 4
      \<and> beat_lengths [''#00111:0102'', ''#00102:0.5''] 1 = 2
      \<and> map Chip.beat (BMS.lanes b 1) = [4, 5, 2147483647]
      \<and> event_tokens ''0A000B00'' = [0, 2]
      \<and> map (token_beat [''#00111:0102'', ''#00102:0.5''] 1 ''0A000B00'') [0, 2] = [4, 5]
      \<and> inserts_always 1 (lnobj b) ''0A000B00''
      \<and> mset (map Chip.beat chips') = mset (map Chip.beat (bgms b)) + mset [4, 5]
      \<and> map Chip.beat chips' = [4, 5, 2147483647]"
proof -
  have "\<exists>bms1. each_line parseBMSMeasure chart_init [''#00111:0102'', ''#00102:0.5''] = Inr bms1
      \<and> (\<exists>b. each_line parseBMSCommand bms1 [''#00111:0102'', ''#00102:0.5''] = Inr b
           \<and> map Chip.beat (BMS.lanes b 1) = [4, 5, 2147483647]
           \<and> (\<exists>chips' b'. calcChip (bgms b) 1 ''0A000B00'' b 1 = Inr (chips', b')
                 \<and> map Chip.beat chips' = [4, 5, 2147483647]))"
    by (simp add: parse_defs char_defs calcChip_scan.simps upt_rec)
  then obtain bms1 b chips' b' where
    p1: "each_line parseBMSMeasure chart_init [''#00111:0102'', ''#00102:0.5''] = Inr bms1"
    and p2: "each_line parseBMSCommand bms1 [''#00111:0102'', ''#00102:0.5''] = Inr b"
    and l: "map Chip.beat (BMS.lanes b 1) = [4, 5, 2147483647]"
    and call: "calcChip (bgms b) 1 ''0A000B00'' b 1 = Inr (chips', b')"
    and out: "map Chip.beat chips' = [4, 5, 2147483647]"
    by (elim exE conjE)
  have four: "beats chart_init = (\<lambda>_. 4)" by (simp add: chart_init_def)
  have ev: "event_tokens ''0A000B00'' = [0, 2]"
    by (simp add: event_tokens_def token_at_def upt_rec)
  have bl: "beat_lengths [''#00111:0102'', ''#00102:0.5''] 0 = 4"
    "beat_lengths [''#00111:0102'', ''#00102:0.5''] 1 = 2"
    by (simp_all add: beat_lengths_def directive_of_def map_filter_simps parse_defs char_defs)
  have tbs: "map (token_beat [''#00111:0102'', ''#00102:0.5''] 1 ''0A000B00'') [0, 2] = [4, 5]"
    using bl by (simp add: token_beat_def lessThan_Suc)
  have ia: "inserts_always 1 (lnobj b) ''0A000B00''" by (simp add: inserts_always_def)
  note main = two_pass_beat_lengths [OF p1 four p2 call]
  from main have bb: "beats b = beat_lengths [''#00111:0102'', ''#00102:0.5'']" by blast
  from main ia have "mset (map Chip.beat chips') =
      mset (map Chip.beat (bgms b))
      + mset (map (token_beat [''#00111:0102'', ''#00102:0.5''] 1 ''0A000B00'')
           (event_tokens ''0A000B00''))"
    by blast
  then have ms: "mset (map Chip.beat chips') = mset (map Chip.beat (bgms b)) + mset [4, 5]"
    by (simp only: ev tbs)
  show ?thesis
    using p1 p2 call bb bl l ev tbs ia ms out
    by (intro exI [of _ bms1] exI [of _ b] exI [of _ chips'] exI [of _ b'] conjI) assumption+
qed

text \<open>
  Claim C5 as stated fails for a multiplier above a quarter of \<^verbatim>\<open>FLT_MAX\<close>. The line
  below declares \<open>10\<^sup>3\<^sup>8\<close> for measure 1, a number that \<^verbatim>\<open>float\<close> holds within its
  range; the product by 4 is not a finite \<^verbatim>\<open>float\<close>. The program stores \<^verbatim>\<open>+inf\<close> as
  the beat length of measure 1, not four times the multiplier.
\<close>

theorem measure_length_overflow:
  "directive_of ''#00102:100000000000000000000000000000000000000''
     = Some (1, 100000000000000000000000000000000000000)
   \<and> parseBMSMeasure chart_init ''#00102:100000000000000000000000000000000000000''
     = Inl NonFinite
   \<and> parseBMS [''#00102:100000000000000000000000000000000000000''] = Inl NonFinite"
  by (simp add: directive_of_def parse_defs char_defs)

text \<open>
  Claim C4, as the code has it. On a standard note channel, for a token other than 00
  and with \<open>i\<close> the position the scan returns: when \<open>i\<close> is not 0 and the token equals
  \<open>LNOBJ\<close>, the event before the position gets the current beat as \<open>beat2\<close>, whether or
  not it was closed before; nothing is inserted and \<open>totalNotes\<close> stays. Otherwise,
  also for an \<open>LNOBJ\<close> token with no event before it, the token is decoded in base 36
  (a token without a leading digit ends the run with \<open>InvalidArgument\<close>), a short event
  is inserted and \<open>totalNotes\<close> goes up by one. There is an event before the
  position exactly when the scan started after position 0 or the first event of the
  lane lies at or before the current beat.
\<close>

theorem note_channel_token:
  assumes "note_channel channel" "token_at notation c \<noteq> ''00''" "m < BEATS_SIZE"
    "calcChip_scan chips i0 (init + real c * beats bms m / real len) = Inr i"
  shows "calcChip_token bms m notation channel init len c (chips, i0, n) =
     (if i \<noteq> 0 \<and> token_at notation c = lnobj bms
      then Inr (chips[i - 1 := (chips ! (i - 1))
                  \<lparr>beat2 := init + real c * beats bms m / real len\<rparr>], i, n)
      else case stoi (token_at notation c) 36 of
             Inl e \<Rightarrow> Inl e
           | Inr v \<Rightarrow>
               Inr (insert_at chips i
                      \<lparr>Chip.beat = init + real c * beats bms m / real len, beat2 = 0,
                       value = real_of_int v\<rparr>, i, n + 1))
     \<and> length (chips[i - 1 := (chips ! (i - 1))
                  \<lparr>beat2 := init + real c * beats bms m / real len\<rparr>]) = length chips
     \<and> length (insert_at chips i chip) = length chips + 1
     \<and> (i = 0 \<longleftrightarrow> i0 = 0 \<and> init + real c * beats bms m / real len < Chip.beat (chips ! 0))"
proof -
  have ch: "channel \<noteq> 1" "channel \<noteq> 3" "channel \<noteq> 8" "channel \<noteq> 9"
    using assms(1) by (auto simp: note_channel_def)
  note sc = calcChip_scan_Inr [OF assms(4)]
  have "i = 0 \<longleftrightarrow> i0 = 0 \<and> init + real c * beats bms m / real len < Chip.beat (chips ! 0)"
  proof (cases "i = 0")
    case True
    with sc show ?thesis by simp
  next
    case False
    with sc have "i0 = 0 \<longrightarrow> Chip.beat (chips ! 0) \<le> init + real c * beats bms m / real len"
      by auto
    with False show ?thesis by auto
  qed
  moreover have "calcChip_token bms m notation channel init len c (chips, i0, n) =
     (if i \<noteq> 0 \<and> token_at notation c = lnobj bms
      then Inr (chips[i - 1 := (chips ! (i - 1))
                  \<lparr>beat2 := init + real c * beats bms m / real len\<rparr>], i, n)
      else case stoi (token_at notation c) 36 of
             Inl e \<Rightarrow> Inl e
           | Inr v \<Rightarrow>
               Inr (insert_at chips i
                      \<lparr>Chip.beat = init + real c * beats bms m / real len, beat2 = 0,
                       value = real_of_int v\<rparr>, i, n + 1))"
    using assms(1-3) ch
    by (auto simp: calcChip_token_def token_at_def [symmetric] Let_def assms(4) bindF_def
        split: sum.splits)
  ultimately show ?thesis by (simp add: length_insert_at)
qed

text \<open>A note at beat 0 and the \<open>LNOBJ\<close> token at beat 2 of the same measure.\<close>

theorem note_channel_token_witness:
  "calcChip_token (chart_init\<lparr>lnobj := ''ZZ''\<rparr>) 0 ''00ZZ'' 11 0 2 1
     ([\<lparr>Chip.beat = 0, beat2 = 0, value = 1\<rparr>, sentinel_chip], 0, 1)
   = Inr ([\<lparr>Chip.beat = 0, beat2 = 2, value = 1\<rparr>, sentinel_chip], 1, 1)"
  using note_channel_token [of 11 "''00ZZ''" 1 0
      "[\<lparr>Chip.beat = 0, beat2 = 0, value = 1\<rparr>, sentinel_chip]" 0 0
      "chart_init\<lparr>lnobj := ''ZZ''\<rparr>" 2 1 1]
  by (simp add: note_channel_def token_at_def BEATS_SIZE_def chart_init_def
      calcChip_scan.simps sentinel_chip_def INT_MAX_def)

text \<open>
  Claim C4 as stated fails in its last clause and in its guard. A closing token with
  no event before it is not ignored: it becomes a note of its own (sample 1295 for ZZ)
  and is counted. A second closing token after a note that is closed already neither
  inserts a note nor is ignored: it moves the end of the closed note (here from beat 1
  to beat 3).
\<close>

theorem lnobj_without_open_note_counterexample:
  "(case parseBMS [''#LNOBJ ZZ'', ''#00011:ZZ''] of
      Inl e \<Rightarrow> False
    | Inr bms \<Rightarrow> BMS.totalNotes bms = 1
        \<and> BMS.lanes bms 1 = [\<lparr>Chip.beat = 0, beat2 = 0, value = 1295\<rparr>, sentinel_chip])
   \<and> (case parseBMS [''#LNOBJ ZZ'', ''#00011:01ZZ00ZZ''] of
      Inl e \<Rightarrow> False
    | Inr bms \<Rightarrow> BMS.totalNotes bms = 1
        \<and> BMS.lanes bms 1 = [\<lparr>Chip.beat = 0, beat2 = 3, value = 1\<rparr>, sentinel_chip])"
  by (simp add: parse_defs char_defs calcChip_scan.simps upt_rec)

text \<open>
  Claim C9, as the code has it. A run of \<open>parseBMS\<close> that returns has computed finite
  beat lengths only. Every chart it returns has its background cues and its lanes in
  ascending order of \<open>beat\<close> (ties allowed), and so has every chart reached during the
  second pass, after any number of lines. The position of an insertion is the one the
  scan reaches from the last position: all events before it lie at or before the new
  beat, all events from it on lie after, so that the vector with the new event is in
  order again. Closing a long note changes \<open>beat2\<close> only and keeps the order.
\<close>

theorem parser_keeps_beat_order:
  "(parseBMS src = Inr bms \<longrightarrow> sorted_chart bms)
   \<and> (each_line parseBMSCommand bms0 pre = Inr bms1 \<and> sorted_chart bms0
        \<and> (\<forall>k. 0 \<le> beats bms0 k) \<longrightarrow> sorted_chart bms1)
   \<and> (sorted (map Chip.beat chips) \<and> (\<forall>k<i0. Chip.beat (chips ! k) \<le> b)
        \<and> calcChip_scan chips i0 b = Inr i \<and> Chip.beat chip = b
      \<longrightarrow> i0 \<le> i \<and> i < length chips
          \<and> (\<forall>k<i. Chip.beat (chips ! k) \<le> b)
          \<and> (\<forall>k. i \<le> k \<and> k < length chips \<longrightarrow> b < Chip.beat (chips ! k))
          \<and> sorted (map Chip.beat (insert_at chips i chip)))
   \<and> (sorted (map Chip.beat chips)
      \<longrightarrow> sorted (map Chip.beat (chips[j := (chips ! j)\<lparr>beat2 := b\<rparr>])))"
proof -
  have pos: "i0 \<le> i \<and> i < length chips
          \<and> (\<forall>k<i. Chip.beat (chips ! k) \<le> b)
          \<and> (\<forall>k. i \<le> k \<and> k < length chips \<longrightarrow> b < Chip.beat (chips ! k))
          \<and> sorted (map Chip.beat (insert_at chips i chip))"
    if srt: "sorted (map Chip.beat chips)" and old: "\<forall>k<i0. Chip.beat (chips ! k) \<le> b"
      and scan: "calcChip_scan chips i0 b = Inr i" and chip: "Chip.beat chip = b"
  proof -
    note sc = calcChip_scan_Inr [OF scan]
    have below: "\<forall>k<i. Chip.beat (chips ! k) \<le> b"
    proof (intro allI impI)
      fix k assume "k < i"
      then show "Chip.beat (chips ! k) \<le> b"
        using old sc by (cases "k < i0") auto
    qed
    have above: "b < Chip.beat (chips ! k)" if "i \<le> k" "k < length chips" for k
    proof -
      have "map Chip.beat chips ! i \<le> map Chip.beat chips ! k"
        using srt that by (intro sorted_nth_mono) simp_all
      with sc that show ?thesis by simp
    qed
    have "sorted (map Chip.beat (insert_at chips i chip))"
      using srt sc below chip by (intro sorted_insert_at) simp_all
    with sc below above show ?thesis by blast
  qed
  have "sorted_chart bms" if "parseBMS src = Inr bms"
    using that by (rule parseBMS_sorted)
  moreover have "sorted_chart bms1"
    if "each_line parseBMSCommand bms0 pre = Inr bms1" "sorted_chart bms0" "\<forall>k. 0 \<le> beats bms0 k"
    using each_line_parseBMSCommand_sorted [OF that] by simp
  moreover have "sorted (map Chip.beat (chips[j := (chips ! j)\<lparr>beat2 := b\<rparr>]))"
    if "sorted (map Chip.beat chips)"
    using that by (simp add: map_beat_close)
  ultimately show ?thesis using pos by blast
qed

text \<open>
  A chart with notes given out of measure order, a long note closed by \<open>LNOBJ\<close>, one
  on a long-note channel, a shortened measure and background cues.
\<close>

theorem parser_keeps_beat_order_witness:
  "\<exists>bms. parseBMS [''#LNOBJ ZZ'', ''#00111:0300ZZ04'', ''#00011:0102'', ''#00102:0.5'',
                    ''#00101:0A0B'', ''#00151:0506'']
            = Inr bms
      \<and> sorted_chart bms
      \<and> BMS.lanes bms 1 =
          [\<lparr>Chip.beat = 0, beat2 = 0, value = 1\<rparr>, \<lparr>Chip.beat = 2, beat2 = 0, value = 2\<rparr>,
           \<lparr>Chip.beat = 4, beat2 = 5, value = 3\<rparr>, \<lparr>Chip.beat = 4, beat2 = 5, value = 5\<rparr>,
           \<lparr>Chip.beat = 11 / 2, beat2 = 0, value = 4\<rparr>, sentinel_chip]
      \<and> map Chip.beat (bgms bms) = [4, 5, 2147483647]"
proof -
  have "\<exists>bms. parseBMS [''#LNOBJ ZZ'', ''#00111:0300ZZ04'', ''#00011:0102'', ''#00102:0.5'',
                    ''#00101:0A0B'', ''#00151:0506'']
            = Inr bms
      \<and> BMS.lanes bms 1 =
          [\<lparr>Chip.beat = 0, beat2 = 0, value = 1\<rparr>, \<lparr>Chip.beat = 2, beat2 = 0, value = 2\<rparr>,
           \<lparr>Chip.beat = 4, beat2 = 5, value = 3\<rparr>, \<lparr>Chip.beat = 4, beat2 = 5, value = 5\<rparr>,
           \<lparr>Chip.beat = 11 / 2, beat2 = 0, value = 4\<rparr>, sentinel_chip]
      \<and> map Chip.beat (bgms bms) = [4, 5, 2147483647]"
    by (simp add: parse_defs char_defs calcChip_scan.simps upt_rec)
  then obtain bms where p: "parseBMS [''#LNOBJ ZZ'', ''#00111:0300ZZ04'', ''#00011:0102'',
        ''#00102:0.5'', ''#00101:0A0B'', ''#00151:0506''] = Inr bms"
    and l: "BMS.lanes bms 1 =
          [\<lparr>Chip.beat = 0, beat2 = 0, value = 1\<rparr>, \<lparr>Chip.beat = 2, beat2 = 0, value = 2\<rparr>,
           \<lparr>Chip.beat = 4, beat2 = 5, value = 3\<rparr>, \<lparr>Chip.beat = 4, beat2 = 5, value = 5\<rparr>,
           \<lparr>Chip.beat = 11 / 2, beat2 = 0, value = 4\<rparr>, sentinel_chip]"
    and g: "map Chip.beat (bgms bms) = [4, 5, 2147483647]"
    by (elim exE conjE)
  have "sorted_chart bms"
    using parser_keeps_beat_order [of _ bms] p by blast
  with p l g show ?thesis
    by (intro exI [of _ bms] conjI) assumption+
qed

text \<open>
  Claim C9 as stated fails when a beat length leaves the range of \<^verbatim>\<open>float\<close>. The first
  line below declares the multiplier \<open>10\<^sup>3\<^sup>8 - 1\<close> for measure 0, which \<^verbatim>\<open>std::stof\<close>
  converts; four times that is beyond \<^verbatim>\<open>FLT_MAX\<close>, so the product is \<^verbatim>\<open>+inf\<close> and the
  run has no finite beat length to go on with. The program stores \<^verbatim>\<open>+inf\<close> and raises
  nothing: in the second line the token at index 0 gets the beat \<^verbatim>\<open>0 * inf / 2\<close>, a
  NaN, which no comparison of the scan places after anything, and the token at index 1
  the beat \<^verbatim>\<open>+inf\<close>, inserted in front of it. Lane 1 then holds the beats \<^verbatim>\<open>+inf\<close>,
  NaN, \<^verbatim>\<open>INT_MAX\<close>, which do not ascend.
\<close>

theorem measure_overflow_breaks_order:
  "parseBMS [''#00002:99999999999999999999999999999999999999'', ''#00011:0102'']
     = Inl NonFinite
   \<and> stof ''99999999999999999999999999999999999999''
     = Inr 99999999999999999999999999999999999999
   \<and> FLT_MAX < 99999999999999999999999999999999999999 * 4"
  by (simp add: parse_defs char_defs calcChip_scan.simps upt_rec)

section \<open>Timeline builder\<close>

lemma bindF_assoc: "bindF (bindF m f) g = bindF m (\<lambda>x. bindF (f x) g)"
  by (cases m) (simp_all add: bindF_def)

lemma calcSegment_loop_append:
  "calcSegment_loop (xs @ ys) st = bindF (calcSegment_loop xs st) (calcSegment_loop ys)"
proof (induction xs arbitrary: st)
  case Nil
  show ?case by (simp add: bindF_def)
next
  case (Cons ev xs)
  show ?case
    by (cases "calcSegment_round ev st") (simp_all add: bindF_def Cons.IH)
qed

lemma calcSegment_round_cases:
  assumes "calcSegment_round ev ((t0, b0, tempo), segs) = Inr st'"
  obtains (tempo_change) "0 < value ev" "tempo \<noteq> 0"
      "st' = ((t0 + (Chip.beat ev - b0) * 60 / tempo, Chip.beat ev, value ev),
              segs @ [\<lparr>time = t0 + (Chip.beat ev - b0) * 60 / tempo, beat = Chip.beat ev,
                       velocity = value ev / 60, bpm = value ev\<rparr>])"
  | (pause) "\<not> 0 < value ev" "0 < beat2 ev" "tempo \<noteq> 0"
      "st' = ((t0 + (Chip.beat ev - b0) * 60 / tempo + beat2 ev * 60 / tempo, Chip.beat ev, tempo),
              segs @ [\<lparr>time = t0 + (Chip.beat ev - b0) * 60 / tempo, beat = Chip.beat ev,
                       velocity = 0, bpm = tempo\<rparr>,
                      \<lparr>time = t0 + (Chip.beat ev - b0) * 60 / tempo + beat2 ev * 60 / tempo,
                       beat = Chip.beat ev, velocity = tempo / 60, bpm = tempo\<rparr>])"
  | (skip) "\<not> 0 < value ev" "\<not> 0 < beat2 ev" "st' = ((t0, b0, tempo), segs)"
  using assms
  by (auto simp: calcSegment_round_def Let_def split: if_splits)

lemma calcSegment_round_tracked:
  assumes "calcSegment_round ev st = Inr st'" "tracked st"
  shows "tracked st' \<and> (\<exists>new. snd st' = snd st @ new)"
proof -
  obtain t0 b0 tempo segs where st: "st = ((t0, b0, tempo), segs)" by (cases st) auto
  from assms(1) [unfolded st] show ?thesis
  proof (cases rule: calcSegment_round_cases)
    case tempo_change
    then show ?thesis by (simp add: tracked_def st)
  next
    case pause
    then show ?thesis by (simp add: tracked_def st)
  next
    case skip
    with assms(2) show ?thesis by (simp add: st)
  qed
qed

lemma calcSegment_loop_tracked:
  assumes "calcSegment_loop evs st = Inr st'" "tracked st"
  shows "tracked st' \<and> (\<exists>new. snd st' = snd st @ new)"
  using assms
proof (induction evs arbitrary: st)
  case Nil
  then show ?case by simp
next
  case (Cons ev evs)
  from Cons.prems(1) obtain st1 where one: "calcSegment_round ev st = Inr st1"
    and more: "calcSegment_loop evs st1 = Inr st'"
    by (auto simp: bindF_Inr)
  from calcSegment_round_tracked [OF one Cons.prems(2)]
  obtain new1 where t1: "tracked st1" and n1: "snd st1 = snd st @ new1" by blast
  from Cons.IH [OF more t1] obtain new2 where "tracked st'" "snd st' = snd st1 @ new2" by blast
  with n1 show ?case by simp
qed

lemma calcSegment_round_pause:
  assumes "is_pause ev" "tracked (s, segs)" "Segment.bpm (last segs) \<noteq> 0"
  shows "calcSegment_round ev (s, segs) =
     Inr ((time (last segs) + (Chip.beat ev - Segment.beat (last segs)) * 60 / Segment.bpm (last segs)
             + beat2 ev * 60 / Segment.bpm (last segs),
           Chip.beat ev, Segment.bpm (last segs)),
          segs @ [\<lparr>time = time (last segs)
                      + (Chip.beat ev - Segment.beat (last segs)) * 60 / Segment.bpm (last segs),
                   beat = Chip.beat ev, velocity = 0, bpm = Segment.bpm (last segs)\<rparr>,
                  \<lparr>time = time (last segs)
                      + (Chip.beat ev - Segment.beat (last segs)) * 60 / Segment.bpm (last segs)
                      + beat2 ev * 60 / Segment.bpm (last segs),
                   beat = Chip.beat ev, velocity = velocity (last segs),
                   bpm = Segment.bpm (last segs)\<rparr>])"
proof -
  obtain t0 b0 tempo where s: "s = (t0, b0, tempo)" by (cases s) auto
  with assms show ?thesis
    by (simp add: calcSegment_round_def Let_def tracked_def is_pause_def)
qed

lemma sorted_le_last: "sorted xs \<Longrightarrow> x \<in> set xs \<Longrightarrow> x \<le> last (xs :: real list)"
  by (induction xs) auto

lemma sorted_snoc_last:
  assumes "sorted (xs :: real list)" "xs \<noteq> []" "last xs \<le> y"
  shows "sorted (xs @ [y])"
proof -
  have "x \<le> y" if "x \<in> set xs" for x
    using sorted_le_last [OF assms(1) that] assms(3) by simp
  with assms(1) show ?thesis by (simp add: sorted_append)
qed

lemma calcSegment_round_in_order:
  assumes "calcSegment_round ev st = Inr st'" "in_order st" "fst (snd (fst st)) \<le> Chip.beat ev"
  shows "in_order st' \<and> fst (snd (fst st')) \<le> Chip.beat ev"
proof -
  obtain t0 b0 tempo segs where st: "st = ((t0, b0, tempo), segs)" by (cases st) auto
  have tr: "segs \<noteq> []" "time (last segs) = t0" and pos: "0 < tempo"
    and srt: "sorted (map time segs)" and le: "b0 \<le> Chip.beat ev"
    using assms(2,3) by (simp_all add: in_order_def tracked_def st)
  have lt: "last (map time segs) = t0" using tr by (simp add: last_map)
  have step: "t0 \<le> t0 + (Chip.beat ev - b0) * 60 / tempo"
    using pos le by simp
  from assms(1) [unfolded st] show ?thesis
  proof (cases rule: calcSegment_round_cases)
    case tempo_change
    have "sorted (map time segs @ [t0 + (Chip.beat ev - b0) * 60 / tempo])"
      using srt tr step lt by (intro sorted_snoc_last) simp_all
    with tempo_change show ?thesis by (simp add: in_order_def tracked_def)
  next
    case pause
    have "0 \<le> beat2 ev * 60 / tempo" using pause(2) pos by simp
    then have step2: "t0 + (Chip.beat ev - b0) * 60 / tempo
        \<le> t0 + (Chip.beat ev - b0) * 60 / tempo + beat2 ev * 60 / tempo"
      by simp
    have one: "sorted (map time segs @ [t0 + (Chip.beat ev - b0) * 60 / tempo])"
      using srt tr step lt by (intro sorted_snoc_last) simp_all
    have "sorted ((map time segs @ [t0 + (Chip.beat ev - b0) * 60 / tempo])
        @ [t0 + (Chip.beat ev - b0) * 60 / tempo + beat2 ev * 60 / tempo])"
      using sorted_snoc_last [of "map time segs @ [t0 + (Chip.beat ev - b0) * 60 / tempo]"
          "t0 + (Chip.beat ev - b0) * 60 / tempo + beat2 ev * 60 / tempo"] one step2
      by simp
    with pause pos show ?thesis by (simp add: in_order_def tracked_def)
  next
    case skip
    with assms(2,3) show ?thesis by (simp add: st)
  qed
qed

lemma calcSegment_loop_in_order:
  assumes "calcSegment_loop evs st = Inr st'" "in_order st" "sorted (map Chip.beat evs)"
    "\<forall>ev \<in> set evs. fst (snd (fst st)) \<le> Chip.beat ev"
  shows "in_order st'"
  using assms
proof (induction evs arbitrary: st)
  case Nil
  then show ?case by simp
next
  case (Cons ev evs)
  from Cons.prems(1) obtain st1 where one: "calcSegment_round ev st = Inr st1"
    and more: "calcSegment_loop evs st1 = Inr st'"
    by (auto simp: bindF_Inr)
  have "in_order st1" "fst (snd (fst st1)) \<le> Chip.beat ev"
    using calcSegment_round_in_order [OF one Cons.prems(2)] Cons.prems(4) by simp_all
  moreover have "\<forall>e \<in> set evs. Chip.beat ev \<le> Chip.beat e"
    using Cons.prems(3) by simp
  ultimately show ?case
    using Cons.IH [OF more] Cons.prems(3) by fastforce
qed

lemma calcSegment_Inr:
  assumes "calcSegment evs [] = Inr out"
  obtains s segs where "evs \<noteq> []" "calcSegment_loop evs (timeline_start evs) = Inr (s, segs)"
    "out = segs @ [sentinel_segment]"
  using assms
  by (cases evs) (auto simp: calcSegment_def timeline_start_def bindF_Inr)

lemma tracked_start: "tracked (timeline_start evs)"
  by (simp add: tracked_def timeline_start_def)

lemma calcSegment_pause:
  assumes run: "calcSegment evs [] = Inr out" and dec: "evs = pre @ ev # post"
    and pause: "is_pause ev"
  shows "\<exists>s segs s' s'' more.
      calcSegment_loop pre (timeline_start evs) = Inr (s, segs)
      \<and> segs \<noteq> [] \<and> Segment.bpm (last segs) \<noteq> 0
      \<and> calcSegment_round ev (s, segs)
          = Inr (s', segs @ [freeze_segment (last segs) ev, resume_segment (last segs) ev])
      \<and> calcSegment_loop post
            (s', segs @ [freeze_segment (last segs) ev, resume_segment (last segs) ev])
          = Inr (s'', segs @ [freeze_segment (last segs) ev, resume_segment (last segs) ev] @ more)
      \<and> out = segs @ [freeze_segment (last segs) ev, resume_segment (last segs) ev] @ more
                @ [sentinel_segment]"
proof -
  from run obtain sf segsf where
    loop: "calcSegment_loop evs (timeline_start evs) = Inr (sf, segsf)"
    and out: "out = segsf @ [sentinel_segment]"
    by (rule calcSegment_Inr)
  have "calcSegment_loop (pre @ ev # post) (timeline_start evs) = Inr (sf, segsf)"
    using loop dec by simp
  then obtain st1 st2 where
    l1: "calcSegment_loop pre (timeline_start evs) = Inr st1"
    and r: "calcSegment_round ev st1 = Inr st2"
    and l2: "calcSegment_loop post st2 = Inr (sf, segsf)"
    unfolding calcSegment_loop_append by (auto simp: bindF_Inr)
  obtain s segs where st1: "st1 = (s, segs)" by (cases st1)
  obtain t0 b0 tempo where s: "s = (t0, b0, tempo)" by (cases s) auto
  have t1: "tracked (s, segs)"
    using calcSegment_loop_tracked [OF l1 tracked_start] by (simp add: st1)
  then have ne: "segs \<noteq> []" and tempo: "Segment.bpm (last segs) = tempo"
    by (simp_all add: tracked_def s)
  have nz: "tempo \<noteq> 0"
    using r [unfolded st1 s] pause
    by (cases rule: calcSegment_round_cases) (simp_all add: is_pause_def)
  define two where "two = [freeze_segment (last segs) ev, resume_segment (last segs) ev]"
  from calcSegment_round_pause [OF pause t1] nz tempo obtain s' where
    r': "calcSegment_round ev (s, segs) = Inr (s', segs @ two)"
    by (simp add: freeze_segment_def resume_segment_def two_def)
  with r have st2: "st2 = (s', segs @ two)" by (simp add: st1)
  have "tracked st2" using calcSegment_round_tracked [OF r] t1 by (simp add: st1)
  from calcSegment_loop_tracked [OF l2 this] obtain more where
    more: "segsf = (segs @ two) @ more" by (auto simp: st2)
  have a: "calcSegment_loop pre (timeline_start evs) = Inr (s, segs)"
    using l1 by (simp add: st1)
  have b: "Segment.bpm (last segs) \<noteq> 0" using nz tempo by simp
  have c: "calcSegment_loop post (s', segs @ two) = Inr (sf, segs @ two @ more)"
    using l2 by (simp add: st2 more)
  have d: "out = segs @ two @ more @ [sentinel_segment]"
    by (simp add: out more)
  show ?thesis
    using a ne b r' c d unfolding two_def
    by (intro exI [of _ s] exI [of _ segs] exI [of _ s'] exI [of _ sf] exI [of _ more] conjI)
qed

lemma calcSegment_sorted:
  assumes run: "calcSegment evs [] = Inr out"
    and srt: "sorted (map Chip.beat evs)" and b0: "0 \<le> Chip.beat (hd evs)"
    and v0: "0 < value (hd evs)"
  shows "sorted (map time (butlast out))
     \<and> (time (last (butlast out)) \<le> real_of_int INT_MAX \<longrightarrow> sorted (map time out))"
proof -
  from run obtain s segs where ne: "evs \<noteq> []"
    and loop: "calcSegment_loop evs (timeline_start evs) = Inr (s, segs)"
    and out: "out = segs @ [sentinel_segment]"
    by (rule calcSegment_Inr)
  have start: "in_order (timeline_start evs)"
    using v0 by (simp add: in_order_def tracked_def timeline_start_def)
  have "Chip.beat (hd evs) \<le> Chip.beat ev" if "ev \<in> set evs" for ev
    using srt ne that by (cases evs) auto
  with b0 have "\<forall>ev \<in> set evs. fst (snd (fst (timeline_start evs))) \<le> Chip.beat ev"
    by (fastforce simp: timeline_start_def)
  from calcSegment_loop_in_order [OF loop start srt this]
  have io: "sorted (map time segs)" "segs \<noteq> []"
    by (simp_all add: in_order_def tracked_def split: prod.splits)
  have "sorted (map time out)" if "time (last segs) \<le> real_of_int INT_MAX"
    using sorted_snoc_last [of "map time segs" "real_of_int INT_MAX"] io that
    by (simp add: out sentinel_segment_def last_map)
  with io show ?thesis by (simp add: out)
qed

text \<open>
  Claim C6, as the code has it. A run of \<open>calcSegment\<close> that returns ends its output
  with the sentinel. Every pause event of the input contributes exactly two adjacent
  segments, right after the segments of the events before it: a freeze of velocity 0 at
  the pause's time and beat, and a resumption at the same beat, later by
  \<open>beat2 * 60 / bpm\<close>, with the velocity of the segment before the pause. When the
  events are in beat order and start with a tempo at a beat that is not negative, the
  times of the segments before the sentinel ascend; the sentinel extends that order only
  when the last of those times is at most the sentinel's own time \<open>INT_MAX\<close>.
\<close>

theorem calcSegment_pauses_and_order:
  assumes "calcSegment evs [] = Inr out"
  shows "out \<noteq> [] \<and> last out = sentinel_segment
     \<and> (\<forall>pre ev post. evs = pre @ ev # post \<and> is_pause ev \<longrightarrow>
          (\<exists>s segs s' s'' more.
             calcSegment_loop pre (timeline_start evs) = Inr (s, segs)
             \<and> segs \<noteq> [] \<and> Segment.bpm (last segs) \<noteq> 0
             \<and> calcSegment_round ev (s, segs)
                 = Inr (s', segs @ [freeze_segment (last segs) ev, resume_segment (last segs) ev])
             \<and> calcSegment_loop post
                   (s', segs @ [freeze_segment (last segs) ev, resume_segment (last segs) ev])
                 = Inr (s'', segs @ [freeze_segment (last segs) ev, resume_segment (last segs) ev]
                               @ more)
             \<and> out = segs @ [freeze_segment (last segs) ev, resume_segment (last segs) ev] @ more
                       @ [sentinel_segment]))
     \<and> (sorted (map Chip.beat evs) \<and> 0 \<le> Chip.beat (hd evs) \<and> 0 < value (hd evs) \<longrightarrow>
          sorted (map time (butlast out))
          \<and> (time (last (butlast out)) \<le> real_of_int INT_MAX \<longrightarrow> sorted (map time out)))"
proof -
  from assms have "out \<noteq> [] \<and> last out = sentinel_segment"
    by (rule calcSegment_Inr) simp
  then show ?thesis
    using calcSegment_pause [OF assms] calcSegment_sorted [OF assms] by blast
qed

text \<open>
  The scenario of the specification: a pause of 2 beats at beat 4 under 120 BPM freezes
  the timeline from second 2 to second 3.
\<close>

theorem calcSegment_pauses_and_order_witness:
  "calcSegment [\<lparr>Chip.beat = 0, beat2 = 0, value = 120\<rparr>, \<lparr>Chip.beat = 4, beat2 = 2, value = 0\<rparr>,
                sentinel_chip] []
   = Inr [\<lparr>time = 0, Segment.beat = 0, velocity = 2, Segment.bpm = 120\<rparr>,
          \<lparr>time = 0, Segment.beat = 0, velocity = 2, Segment.bpm = 120\<rparr>,
          \<lparr>time = 2, Segment.beat = 4, velocity = 0, Segment.bpm = 120\<rparr>,
          \<lparr>time = 3, Segment.beat = 4, velocity = 2, Segment.bpm = 120\<rparr>,
          sentinel_segment]
   \<and> is_pause \<lparr>Chip.beat = 4, beat2 = 2, value = 0\<rparr>
   \<and> freeze_segment \<lparr>time = 0, Segment.beat = 0, velocity = 2, Segment.bpm = 120\<rparr>
         \<lparr>Chip.beat = 4, beat2 = 2, value = 0\<rparr>
       = \<lparr>time = 2, Segment.beat = 4, velocity = 0, Segment.bpm = 120\<rparr>
   \<and> resume_segment \<lparr>time = 0, Segment.beat = 0, velocity = 2, Segment.bpm = 120\<rparr>
         \<lparr>Chip.beat = 4, beat2 = 2, value = 0\<rparr>
       = \<lparr>time = 3, Segment.beat = 4, velocity = 2, Segment.bpm = 120\<rparr>
   \<and> sorted (map Chip.beat [\<lparr>Chip.beat = 0, beat2 = 0, value = 120\<rparr>,
                \<lparr>Chip.beat = 4, beat2 = 2, value = 0\<rparr>, sentinel_chip])
   \<and> sorted (map time
         [\<lparr>time = 0, Segment.beat = 0, velocity = 2, Segment.bpm = 120\<rparr>,
          \<lparr>time = 0, Segment.beat = 0, velocity = 2, Segment.bpm = 120\<rparr>,
          \<lparr>time = 2, Segment.beat = 4, velocity = 0, Segment.bpm = 120\<rparr>,
          \<lparr>time = 3, Segment.beat = 4, velocity = 2, Segment.bpm = 120\<rparr>,
          sentinel_segment])"
proof -
  have run: "calcSegment [\<lparr>Chip.beat = 0, beat2 = 0, value = 120\<rparr>,
                \<lparr>Chip.beat = 4, beat2 = 2, value = 0\<rparr>, sentinel_chip] []
   = Inr [\<lparr>time = 0, Segment.beat = 0, velocity = 2, Segment.bpm = 120\<rparr>,
          \<lparr>time = 0, Segment.beat = 0, velocity = 2, Segment.bpm = 120\<rparr>,
          \<lparr>time = 2, Segment.beat = 4, velocity = 0, Segment.bpm = 120\<rparr>,
          \<lparr>time = 3, Segment.beat = 4, velocity = 2, Segment.bpm = 120\<rparr>,
          sentinel_segment]"
    by (simp add: calcSegment_def calcSegment_round_def sentinel_chip_def bindF_def Let_def
        INT_MAX_def)
  from calcSegment_pauses_and_order [OF run] show ?thesis
    using run
    by (simp add: sentinel_chip_def sentinel_segment_def INT_MAX_def is_pause_def
        freeze_segment_def resume_segment_def)
qed

text \<open>
  Claim C6 as stated fails in its order clause. The chart below has a tempo of 60 BPM and,
  at beat 4, a pause of 4294967296 beats (206158430208 is \<open>48 * 2\<^sup>3\<^sup>2\<close>; every number
  of this run is a \<^verbatim>\<open>float\<close> or a \<^verbatim>\<open>double\<close> without rounding). Its tempo sequence
  is in beat order and starts with the tempo at beat 0. The pause resumes at second
  4294967300, after the time 2147483647 of the sentinel that follows it, so the segment
  times are not ascending.
\<close>

theorem long_pause_counterexample:
  "(case parseBMS [''#BPM 60'', ''#STOP01 206158430208'', ''#00109:01''] of
      Inl e \<Rightarrow> False
    | Inr bms \<Rightarrow>
        bpms bms = [\<lparr>Chip.beat = 0, beat2 = 0, value = 60\<rparr>,
                    \<lparr>Chip.beat = 4, beat2 = 4294967296, value = 0\<rparr>, sentinel_chip]
        \<and> map time (BMS.segments bms) = [0, 0, 4, 4294967300, 2147483647]
        \<and> \<not> sorted (map time (BMS.segments bms)))"
  by (simp add: parse_defs char_defs calcChip_scan.simps upt_rec)

section \<open>End of the session\<close>

lemma update_split:
  "update bms frame w =
     bindF (update_notes bms frame w) (\<lambda>w3.
       if length (bgms bms) \<le> bgm (player w3) then Inl PastTheEnd
       else bindF (if chart_ended bms frame w3 then gameOver w3 else Inr w3)
              (update_input bms frame ((getTime frame - startTime (player w)) / 1000)))"
  unfolding update_def update_notes_def chart_ended_def update_input_def Let_def
  by (simp add: bindF_def split: sum.splits)

lemma score_steady_refl: "score_steady s s"
  by (simp add: score_steady_def)

lemma score_steady_trans: "score_steady a b \<Longrightarrow> score_steady b c \<Longrightarrow> score_steady a c"
  by (simp add: score_steady_def)

lemma steady_refl: "steady w w"
  by (simp add: steady_def score_steady_refl)

lemma steady_trans: "steady a b \<Longrightarrow> steady b c \<Longrightarrow> steady a c"
  unfolding steady_def using score_steady_trans by auto

lemma comboBonus_result:
  assumes "comboBonus s = Inr s'"
  shows "s' = s\<lparr>Score.comboBonus := bonus_of (combo s) (Score.totalNotes s)\<rparr>"
proof -
  have "(if combo s - 11 < 0 then - (combo s - 11) else combo s - 11) = \<bar>combo s - 11\<bar>"
    by simp
  then show ?thesis
    using assms unfolding comboBonus_def Let_def bonus_of_def bonus_numer_def
    by (simp split: if_splits)
qed

lemma comboCount_result:
  assumes "comboCount s = Inr s'"
  shows "s' = s\<lparr>maxCombo := max (maxCombo s) (combo s),
           Score.comboBonus := bonus_of (combo s) (Score.totalNotes s), combo := 0\<rparr>"
proof (cases "maxCombo s < combo s")
  case True
  with assms obtain s1 where "comboBonus (s\<lparr>maxCombo := combo s\<rparr>) = Inr s1" "s' = s1\<lparr>combo := 0\<rparr>"
    by (auto simp: comboCount_def bindF_Inr)
  with comboBonus_result [of "s\<lparr>maxCombo := combo s\<rparr>" s1] True show ?thesis
    by (simp add: max_def)
next
  case False
  with assms obtain s1 where "comboBonus s = Inr s1" "s' = s1\<lparr>combo := 0\<rparr>"
    by (auto simp: comboCount_def bindF_Inr)
  with comboBonus_result [of s s1] False show ?thesis
    by (simp add: max_def)
qed

lemma calcReset_result:
  assumes "calcReset s = Inr s'"
  shows "s' = s\<lparr>Score.judges := (Score.judges s)(3 := Score.judges s 3 + 1),
           maxCombo := max (maxCombo s) (combo s),
           Score.comboBonus := bonus_of (combo s) (Score.totalNotes s), combo := 0,
           totalJudges := totalJudges s + 1\<rparr>"
proof -
  from assms obtain s1 where
    "comboCount (s\<lparr>Score.judges := (Score.judges s)(3 := Score.judges s 3 + 1)\<rparr>) = Inr s1"
    "s' = s1\<lparr>totalJudges := totalJudges s1 + 1\<rparr>"
    by (auto simp: calcReset_def bindF_Inr JUDGE_PHASES_def)
  with comboCount_result [OF this(1)] show ?thesis by simp
qed

lemma calcReset_steady: "calcReset s = Inr s' \<Longrightarrow> score_steady s s'"
  by (drule calcReset_result) (simp add: score_steady_def)

lemma calculate_steady: "calculate s j = Inr s' \<Longrightarrow> score_steady s s'"
  by (auto simp: calculate_def score_steady_def split: if_splits)

lemma judgeln_steady:
  assumes "judgeln bms i w = Inr w'"
  shows "steady w w'"
  using assms
  by (auto simp: judgeln_def Let_def bindF_Inr advance_begin_def steady_def score_steady_refl
      split: if_splits dest!: calcReset_steady calculate_steady)

lemma judge_steady:
  assumes "judge bms i w = Inr w'"
  shows "steady w w'"
proof (cases "Player.judges (player w) i \<noteq> 0")
  case True
  with assms have "judgeln bms i w = Inr w'"
    by (simp add: judge_def Let_def split: if_splits)
  then show ?thesis by (rule judgeln_steady)
next
  case False
  then show ?thesis
    using assms
    by (auto simp: judge_def Let_def bindF_Inr advance_begin_def steady_def score_steady_refl
        split: if_splits dest!: calcReset_steady calculate_steady)
qed

lemma handler_keys_steady:
  "handler_keys bms input i w = Inr w' \<Longrightarrow> steady w w'"
proof (induction bms input i w rule: handler_keys.induct)
  case (1 bms input i w)
  show ?case
  proof (cases "LANES_COUNT \<le> i")
    case True
    with "1.prems" show ?thesis by (simp add: handler_keys.simps [of bms input i w] steady_refl)
  next
    case False
    from "1.prems" False obtain k where k: "keyBind_at (keyBinds (option w)) i = Inr k"
      and run: "(if input \<noteq> k then handler_keys bms input (i + 1) w
          else judge bms i
              (w\<lparr>player := (player w)\<lparr>inputs := (inputs (player w))
                                         (i := inputs (player w) i OR 1)\<rparr>\<rparr>)) = Inr w'"
      by (auto simp: handler_keys.simps [of bms input i w] bindF_Inr)
    show ?thesis
    proof (cases "input \<noteq> k")
      case True
      with run have "handler_keys bms input (i + 1) w = Inr w'" by simp
      from "1.IH" [OF False True this] show ?thesis .
    next
      case n: False
      with run have "judge bms i
              (w\<lparr>player := (player w)\<lparr>inputs := (inputs (player w))
                                         (i := inputs (player w) i OR 1)\<rparr>\<rparr>) = Inr w'"
        by simp
      from judge_steady [OF this] show ?thesis by (simp add: steady_def)
    qed
  qed
qed

lemma handler_steady:
  assumes "handler bms input w = Inr w'"
  shows "steady w w'"
proof -
  define w1 where "w1 = w\<lparr>player := (player w)\<lparr>inputs :=
                  (\<lambda>i. if i < LANES_COUNT then push_bit 1 (inputs (player w) i)
                        else inputs (player w) i)\<rparr>\<rparr>"
  have s1: "steady w w1" by (simp add: w1_def steady_def score_steady_refl)
  have "steady w1 w'"
  proof (cases "input = 51 \<or> input = 52 \<or> input = 113 \<or> input = 12 \<or> autoPlay (option w1) \<noteq> 0")
    case True
    with assms show ?thesis
      unfolding handler_def Let_def w1_def [symmetric]
      by (auto simp: steady_def score_steady_refl split: if_splits)
  next
    case False
    with assms have "handler_keys bms input 0 w1 = Inr w'"
      unfolding handler_def Let_def w1_def [symmetric] by (simp split: if_splits)
    then show ?thesis by (rule handler_keys_steady)
  qed
  with s1 show ?thesis by (rule steady_trans)
qed

lemma update_input_steady:
  "update_input bms frame t w = Inr w' \<Longrightarrow> steady w w'"
  by (auto simp: update_input_def bindF_Inr steady_refl split: if_splits
      dest!: handler_steady) (simp add: steady_def)

lemma update_bgm_steady:
  "update_bgm bms w = Inr w' \<Longrightarrow> steady w w'"
proof (induction bms w rule: update_bgm.induct)
  case (1 bms w)
  show ?case
  proof (cases "Player.beat (player w) \<ge> Chip.beat (bgms bms ! bgm (player w))")
    case True
    with "1.prems" have len: "\<not> length (bgms bms) \<le> bgm (player w)"
      and ok: "\<not> (double_to_int (value (bgms bms ! bgm (player w))) < 0
            \<or> int TABLE_SIZE \<le> double_to_int (value (bgms bms ! bgm (player w))))"
      and run: "update_bgm bms
                (w\<lparr>mixer := mixer w @ [double_to_int (value (bgms bms ! bgm (player w)))],
                   player := (player w)\<lparr>bgm := bgm (player w) + 1\<rparr>\<rparr>) = Inr w'"
      by (simp_all add: update_bgm.simps [of bms w] split: if_splits)
    from "1.IH" [OF len True ok run] show ?thesis by (simp add: steady_def score_steady_def)
  next
    case False
    with "1.prems" have "w' = w" by (simp add: update_bgm.simps [of bms w] split: if_splits)
    then show ?thesis by (simp add: steady_refl)
  qed
qed

lemma update_lane_steady:
  assumes "update_lane bms padding i w = Inr w'"
  shows "steady w w'"
proof -
  from assms obtain w1 where
    j: "(if Player.beat (player w)
                    \<ge> Chip.beat (BMS.lanes bms i ! begin (lanes (player w) i)) + padding
               then judge bms i w else Inr w) = Inr w1"
    and rest: "(let w2 = (if Player.beat (player w1)
                           \<ge> Chip.beat (BMS.lanes bms i ! end (lanes (player w1) i)) - LIFETIME_BEATS
                      then w1\<lparr>player := (player w1)\<lparr>lanes := (lanes (player w1))
                                (i := (lanes (player w1) i)\<lparr>end := end (lanes (player w1) i) + 1\<rparr>)\<rparr>\<rparr>
                      else w1)
            in if Player.judges (player w2) i \<noteq> 0 then judgeln bms i w2 else Inr w2) = Inr w'"
    by (auto simp: update_lane_def bindF_Inr split: if_splits)
  have a: "steady w w1" using j by (auto simp: steady_refl split: if_splits dest: judge_steady)
  define w2 where "w2 = (if Player.beat (player w1)
                           \<ge> Chip.beat (BMS.lanes bms i ! end (lanes (player w1) i)) - LIFETIME_BEATS
                      then w1\<lparr>player := (player w1)\<lparr>lanes := (lanes (player w1))
                                (i := (lanes (player w1) i)\<lparr>end := end (lanes (player w1) i) + 1\<rparr>)\<rparr>\<rparr>
                      else w1)"
  have b: "steady w1 w2" by (simp add: w2_def steady_def score_steady_refl)
  have "(if Player.judges (player w2) i \<noteq> 0 then judgeln bms i w2 else Inr w2) = Inr w'"
    using rest unfolding Let_def w2_def [symmetric] .
  then have c: "steady w2 w'" by (auto simp: steady_refl split: if_splits dest: judgeln_steady)
  from a b c show ?thesis by (blast intro: steady_trans)
qed

lemma update_lanes_steady:
  "update_lanes bms padding is w = Inr w' \<Longrightarrow> steady w w'"
proof (induction "is" arbitrary: w)
  case Nil
  then show ?case by (simp add: steady_refl)
next
  case (Cons i rest)
  then obtain w1 where "update_lane bms padding i w = Inr w1" "update_lanes bms padding rest w1 = Inr w'"
    by (auto simp: bindF_Inr)
  with Cons.IH [of w1] update_lane_steady [of bms padding i w w1] show ?case
    by (blast intro: steady_trans)
qed

lemma update_notes_steady:
  assumes "update_notes bms frame w = Inr w'"
  shows "steady w w'"
proof -
  from assms obtain k w1 w2 padding where
    "w1 = w\<lparr>player := (player w)\<lparr>Player.segments := k,
                   Player.beat := Segment.beat (BMS.segments bms ! k)
                      + ((getTime frame - startTime (player w)) / 1000 - time (BMS.segments bms ! k))
                        * velocity (BMS.segments bms ! k),
                   Player.bpm := Segment.bpm (BMS.segments bms ! k)\<rparr>\<rparr>"
    "update_bgm bms w1 = Inr w2" "update_lanes bms padding [0..<LANES_COUNT] w2 = Inr w'"
    unfolding update_notes_def Let_def by (auto simp: bindF_Inr)
  moreover from this(1) have "steady w w1" by (simp add: steady_def score_steady_refl)
  ultimately show ?thesis
    using update_bgm_steady [of bms w1 w2] update_lanes_steady [of bms padding _ w2 w']
    by (blast intro: steady_trans)
qed

lemma scoreCount_result:
  assumes "scoreCount s = Inr s'"
  shows "Score.totalNotes s \<noteq> 0"
    "s' = s\<lparr>point := c_div (75000 * Score.judges s 0) (Score.totalNotes s)
              + c_div (50000 * Score.judges s 1 + 10000 * Score.judges s 2) (Score.totalNotes s)
              + Score.comboBonus s\<rparr>"
  using assms unfolding scoreCount_def Let_def by (simp_all split: if_splits)

lemma gameOver_result:
  assumes run: "gameOver w = Inr w'" and j: "\<forall>i. 0 \<le> Score.judges (score w) i"
    and t: "0 \<le> Score.totalNotes (score w)"
  shows "0 < Score.totalNotes (score w)
     \<and> gameover (player w') = 1 \<and> quit (player w') = 1
     \<and> point (score w') =
         75000 * Score.judges (score w) 0 div Score.totalNotes (score w)
         + (50000 * Score.judges (score w) 1 + 10000 * Score.judges (score w) 2)
             div Score.totalNotes (score w)
         + Score.comboBonus (score w')
     \<and> Score.comboBonus (score w') = bonus_of (combo (score w)) (Score.totalNotes (score w))
     \<and> Score.judges (score w') = Score.judges (score w)
     \<and> Score.totalNotes (score w') = Score.totalNotes (score w)"
proof -
  from run obtain s1 s2 where c: "comboCount (score w) = Inr s1" and sc: "scoreCount s1 = Inr s2"
    and w': "w' = w\<lparr>score := s2, player := (player w)\<lparr>gameover := 1, quit := 1\<rparr>\<rparr>"
    by (auto simp: gameOver_def bindF_Inr)
  note s1 = comboCount_result [OF c]
  note r = scoreCount_result [OF sc]
  have tn: "Score.totalNotes s1 = Score.totalNotes (score w)"
    and js: "Score.judges s1 = Score.judges (score w)"
    and cb: "Score.comboBonus s1 = bonus_of (combo (score w)) (Score.totalNotes (score w))"
    by (simp_all add: s1)
  have pos: "0 < Score.totalNotes (score w)" using r(1) t tn by simp
  have a: "0 \<le> 75000 * Score.judges (score w) 0"
    and e: "0 \<le> 50000 * Score.judges (score w) 1 + 10000 * Score.judges (score w) 2"
    using j by (simp_all add: add_nonneg_nonneg)
  have "point s2 = 75000 * Score.judges (score w) 0 div Score.totalNotes (score w)
         + (50000 * Score.judges (score w) 1 + 10000 * Score.judges (score w) 2)
             div Score.totalNotes (score w)
         + Score.comboBonus s1"
    using c_div_pos [OF a pos] c_div_pos [OF e pos] by (simp add: r(2) tn js)
  moreover have "Score.comboBonus s2 = Score.comboBonus s1" "Score.judges s2 = Score.judges s1"
    "Score.totalNotes s2 = Score.totalNotes s1"
    by (simp_all add: r(2))
  ultimately show ?thesis using pos by (simp add: w' tn js cb)
qed

lemma update_cases:
  assumes "update bms frame w = Inr w'"
  obtains (going) w3 where "update_notes bms frame w = Inr w3" "\<not> chart_ended bms frame w3"
      "steady w w'"
  | (ended) w3 w4 where "update_notes bms frame w = Inr w3" "chart_ended bms frame w3"
      "steady w w3" "gameOver w3 = Inr w4" "steady w4 w'"
proof -
  from assms obtain w3 w4 where n: "update_notes bms frame w = Inr w3"
    and g: "(if chart_ended bms frame w3 then gameOver w3 else Inr w3) = Inr w4"
    and h: "update_input bms frame ((getTime frame - startTime (player w)) / 1000) w4 = Inr w'"
    unfolding update_split by (auto simp: bindF_Inr split: if_splits)
  note s3 = update_notes_steady [OF n]
  note s4 = update_input_steady [OF h]
  show ?thesis
  proof (cases "chart_ended bms frame w3")
    case True
    with g have "gameOver w3 = Inr w4" by simp
    with n True s3 s4 show ?thesis by (intro ended)
  next
    case False
    with g have "w4 = w3" by simp
    with s3 s4 have "steady w w'" by (blast intro: steady_trans)
    with n False show ?thesis by (intro going)
  qed
qed

lemma play_loop_snoc:
  "play_loop bms (pre @ [frame]) w =
     bindF (play_loop bms pre w)
       (\<lambda>w1. if quit (player w1) \<noteq> 0 then Inr w1 else update bms frame w1)"
proof (induction pre arbitrary: w)
  case Nil
  show ?case by (cases "update bms frame w") (simp_all add: bindF_def)
next
  case (Cons f pre)
  show ?case
  proof (cases "quit (player w) \<noteq> 0")
    case True
    then show ?thesis by (simp add: bindF_def)
  next
    case False
    then show ?thesis
      by (cases "update bms f w") (simp_all add: bindF_def Cons.IH)
  qed
qed

lemma play_loop_trace:
  assumes "play_loop bms frames w = Inr w'" "quit (player w) = 0"
  shows "steady w w'
     \<or> (\<exists>pre frame post w1 w3 w4.
          frames = pre @ frame # post \<and> play_loop bms pre w = Inr w1 \<and> quit (player w1) = 0
          \<and> steady w w1 \<and> update bms frame w1 = Inr w'
          \<and> update_notes bms frame w1 = Inr w3 \<and> chart_ended bms frame w3 \<and> steady w1 w3
          \<and> gameOver w3 = Inr w4 \<and> steady w4 w')"
  using assms
proof (induction frames arbitrary: w)
  case Nil
  then show ?case by (simp add: steady_refl)
next
  case (Cons f rest)
  from Cons.prems obtain wa where up: "update bms f w = Inr wa"
    and more: "play_loop bms rest wa = Inr w'"
    by (auto simp: bindF_Inr)
  from up show ?case
  proof (cases rule: update_cases)
    case (going w3)
    show ?thesis
    proof (cases "quit (player wa) = 0")
      case True
      from Cons.IH [OF more True] show ?thesis
      proof (elim disjE exE conjE)
        assume "steady wa w'"
        with going(3) show ?thesis by (blast intro: steady_trans)
      next
        fix pre frame post w1 w3' w4
        assume d: "rest = pre @ frame # post" "play_loop bms pre wa = Inr w1"
          "quit (player w1) = 0" "steady wa w1" "update bms frame w1 = Inr w'"
          "update_notes bms frame w1 = Inr w3'" "chart_ended bms frame w3'" "steady w1 w3'"
          "gameOver w3' = Inr w4" "steady w4 w'"
        have "f # rest = (f # pre) @ frame # post" using d(1) by simp
        moreover have "play_loop bms (f # pre) w = Inr w1"
          using Cons.prems(2) up d(2) by (simp add: bindF_def)
        moreover have "steady w w1" using going(3) d(4) by (rule steady_trans)
        ultimately show ?thesis using d by blast
      qed
    next
      case False
      with more have "w' = wa" by (simp add: play_loop_quit)
      with going(3) show ?thesis by simp
    qed
  next
    case (ended w3 w4)
    from ended(4) have "quit (player w4) = 1"
      by (auto simp: gameOver_def bindF_Inr)
    with ended(5) have "quit (player wa) \<noteq> 0" by (simp add: steady_def)
    with more have w': "w' = wa" by (simp add: play_loop_quit)
    have "f # rest = [] @ f # rest" by simp
    moreover have "play_loop bms [] w = Inr w" by simp
    ultimately show ?thesis
      using Cons.prems(2) up ended steady_refl [of w] unfolding w' by blast
  qed
qed

lemma calcChip_token_notes:
  assumes "calcChip_token bms m notation channel init len c (chips, i0, n) = Inr (chips', i, n')"
  shows "n \<le> n'"
  using assms
  by (auto simp: calcChip_token_def Let_def bindF_Inr split: if_splits)

lemma calcChip_loop_notes:
  "calcChip_loop bms m notation channel init len cs (chips, i0, n) = Inr (chips', i, n') \<Longrightarrow> n \<le> n'"
proof (induction cs arbitrary: chips i0 n)
  case Nil
  then show ?case by simp
next
  case (Cons c cs)
  from Cons.prems obtain st1 where
    tok: "calcChip_token bms m notation channel init len c (chips, i0, n) = Inr st1"
    and rest: "calcChip_loop bms m notation channel init len cs st1 = Inr (chips', i, n')"
    by (auto simp: bindF_Inr)
  obtain chips1 i1 n1 where st1: "st1 = (chips1, i1, n1)" by (cases st1)
  from calcChip_token_notes [OF tok [unfolded st1]] Cons.IH [OF rest [unfolded st1]]
  show ?case by simp
qed

lemma calcChip_notes:
  assumes "calcChip chips m notation bms channel = Inr (chips', bms')"
  shows "BMS.totalNotes bms \<le> BMS.totalNotes bms'"
proof -
  from assms obtain init len i n where
    "calcChip_loop bms m notation channel init len [0..<len] (chips, 0, BMS.totalNotes bms)
       = Inr (chips', i, n)" "bms' = bms\<lparr>BMS.totalNotes := n\<rparr>"
    by (auto simp: calcChip_def Let_def bindF_Inr split: if_splits)
  with calcChip_loop_notes [OF this(1)] show ?thesis by simp
qed

lemma parseBMSCommand_notes:
  assumes "parseBMSCommand bms line = Inr bms'"
  shows "BMS.totalNotes bms \<le> BMS.totalNotes bms'"
  using assms
proof (cases rule: parseBMSCommand_shape)
  case channel
  then show ?thesis
  proof (cases rule: parseBMSChannel_shape)
    case same
    then show ?thesis by simp
  next
    case (bgm m3 measure channel chips bms1)
    with calcChip_notes [OF bgm(1)] show ?thesis by simp
  next
    case (bpm m3 measure channel chips bms1)
    with calcChip_notes [OF bpm(1)] show ?thesis by simp
  next
    case (lane c m3 measure channel chips bms1)
    with calcChip_notes [OF lane(1)] show ?thesis by simp
  qed
next
  case header
  then show ?thesis by simp
qed

lemma each_line_parseBMSCommand_notes:
  "each_line parseBMSCommand bms src = Inr bms' \<Longrightarrow> BMS.totalNotes bms \<le> BMS.totalNotes bms'"
proof (induction src arbitrary: bms)
  case Nil
  then show ?case by simp
next
  case (Cons line rest)
  from Cons.prems obtain bms1 where one: "parseBMSCommand bms line = Inr bms1"
    and more: "each_line parseBMSCommand bms1 rest = Inr bms'"
    by (auto simp: bindF_Inr)
  from parseBMSCommand_notes [OF one] Cons.IH [OF more] show ?case by simp
qed

lemma parseBMS_notes:
  assumes "parseBMS src = Inr bms"
  shows "0 \<le> BMS.totalNotes bms"
proof -
  from assms obtain bms1 bms2 segs where
    p1: "each_line parseBMSMeasure chart_init src = Inr bms1"
    and p2: "each_line parseBMSCommand bms1 src = Inr bms2"
    and r: "bms = bms2\<lparr>BMS.segments := segs\<rparr>"
    by (auto simp: parseBMS_def bindF_Inr)
  have "BMS.totalNotes bms1 = 0"
    using pass1_rest [OF p1] by (simp add: chart_init_def BMS_zero_def)
  with each_line_parseBMSCommand_notes [OF p2] show ?thesis by (simp add: r)
qed

text \<open>
  Claim C2, as the code has it. In a session on a parsed chart that returns, the point
  total is computed at most once: the loop of \<open>play\<close> calls \<open>update\<close> once
  for every frame as long as \<open>quit\<close> is 0; \<open>update\<close> calls \<open>gameOver\<close> exactly when, after
  its loop over the lanes, the cursor of the background cues is at the sentinel and the
  mixer is silent; \<open>gameOver\<close> sets \<open>quit\<close>, so that the frame of that call is the last.
  Until then, and in a session that the player quits, \<open>point\<close> is 0 as initialized.
  The total that \<open>gameOver\<close> computes is
  \<open>75000 * cool div t + (50000 * great + 10000 * good) div t + comboBonus\<close>, with the
  counters of the state in which it is called, the number \<open>t > 0\<close> of notes of the chart,
  and the bonus that its own combo reset has just left; the division is the floor. The
  input handled later in that frame does not change the total. That a run returns
  means that no product or sum has left \<^verbatim>\<open>int\<close> and that \<open>t\<close> is not 0; \<open>gameOver\<close>
  returns on every chart of at most 28633 notes whose counters lie between 0 and the
  number of notes.
\<close>

theorem point_computed_at_chart_end:
  assumes p: "parseBMS src = Inr bms" and r: "run bms opt start frames = Inr w'"
  shows "(gameover (player w') = 0 \<longrightarrow> point (score w') = 0)
     \<and> (gameover (player w') \<noteq> 0 \<longrightarrow>
          (\<exists>pre frame post w1 w3 w4.
             frames = pre @ frame # post
             \<and> run bms opt start pre = Inr w1 \<and> quit (player w1) = 0
             \<and> gameover (player w1) = 0 \<and> point (score w1) = 0
             \<and> update bms frame w1 = Inr w'
             \<and> update_notes bms frame w1 = Inr w3 \<and> chart_ended bms frame w3
             \<and> point (score w3) = 0 \<and> gameOver w3 = Inr w4
             \<and> 0 < BMS.totalNotes bms
             \<and> point (score w4) =
                 75000 * Score.judges (score w3) 0 div BMS.totalNotes bms
                 + (50000 * Score.judges (score w3) 1 + 10000 * Score.judges (score w3) 2)
                     div BMS.totalNotes bms
                 + Score.comboBonus (score w4)
             \<and> Score.comboBonus (score w4) = bonus_of (combo (score w3)) (BMS.totalNotes bms)
             \<and> point (score w') = point (score w4)
             \<and> gameover (player w') = 1 \<and> quit (player w') \<noteq> 0))
     \<and> run bms opt start (fs @ [f]) =
         bindF (run bms opt start fs)
           (\<lambda>w1. if quit (player w1) \<noteq> 0 then Inr w1 else update bms f w1)
     \<and> update bms f ws =
         bindF (update_notes bms f ws) (\<lambda>w3.
           if length (bgms bms) \<le> bgm (player w3) then Inl PastTheEnd
           else bindF (if chart_ended bms f w3 then gameOver w3 else Inr w3)
                  (update_input bms f ((getTime f - startTime (player ws)) / 1000)))
     \<and> (0 < Score.totalNotes (score w0) \<and> Score.totalNotes (score w0) \<le> 28633
        \<and> 0 \<le> Score.judges (score w0) 0 \<and> 0 \<le> Score.judges (score w0) 1
        \<and> 0 \<le> Score.judges (score w0) 2
        \<and> Score.judges (score w0) 0 + Score.judges (score w0) 1 + Score.judges (score w0) 2
             \<le> Score.totalNotes (score w0)
        \<and> 0 \<le> combo (score w0) \<and> combo (score w0) \<le> Score.totalNotes (score w0)
        \<longrightarrow> (\<exists>w4. gameOver w0 = Inr w4))"
proof -
  define W where "W = \<lparr>player = newGame bms Player_zero, option = opt, score = Score_zero,
        lastHandledTime = 0, mixer = []\<rparr>"
  define W0 where "W0 = W\<lparr>score := (score W)\<lparr>Score.totalNotes := Player.totalNotes (player W)\<rparr>,
          player := (player W)\<lparr>startTime := start\<rparr>\<rparr>"
  have run: "run bms opt start xs = play_loop bms xs W0" for xs
    by (simp add: run_def play_def W_def W0_def)
  have init: "quit (player W0) = 0" "gameover (player W0) = 0" "point (score W0) = 0"
    "\<forall>i. 0 \<le> Score.judges (score W0) i" "Score.totalNotes (score W0) = BMS.totalNotes bms"
    by (simp_all add: W0_def W_def newGame_def Player_zero_def Score_zero_def)
  have t0: "0 \<le> BMS.totalNotes bms" using p by (rule parseBMS_notes)
  have loop: "play_loop bms frames W0 = Inr w'" using r by (simp only: run)
  have snoc: "run bms opt start (fs @ [f]) =
         bindF (run bms opt start fs)
           (\<lambda>w1. if quit (player w1) \<noteq> 0 then Inr w1 else update bms f w1)"
    by (simp only: run play_loop_snoc)
  have ret: "\<exists>w4. gameOver w0 = Inr w4"
    if "0 < Score.totalNotes (score w0)" "Score.totalNotes (score w0) \<le> 28633"
       "0 \<le> Score.judges (score w0) 0" "0 \<le> Score.judges (score w0) 1"
       "0 \<le> Score.judges (score w0) 2"
       "Score.judges (score w0) 0 + Score.judges (score w0) 1 + Score.judges (score w0) 2
             \<le> Score.totalNotes (score w0)"
       "0 \<le> combo (score w0)" "combo (score w0) \<le> Score.totalNotes (score w0)"
    using gameOver_returns [OF that] by blast
  have main: "(gameover (player w') = 0 \<longrightarrow> point (score w') = 0)
     \<and> (gameover (player w') \<noteq> 0 \<longrightarrow>
          (\<exists>pre frame post w1 w3 w4.
             frames = pre @ frame # post
             \<and> run bms opt start pre = Inr w1 \<and> quit (player w1) = 0
             \<and> gameover (player w1) = 0 \<and> point (score w1) = 0
             \<and> update bms frame w1 = Inr w'
             \<and> update_notes bms frame w1 = Inr w3 \<and> chart_ended bms frame w3
             \<and> point (score w3) = 0 \<and> gameOver w3 = Inr w4
             \<and> 0 < BMS.totalNotes bms
             \<and> point (score w4) =
                 75000 * Score.judges (score w3) 0 div BMS.totalNotes bms
                 + (50000 * Score.judges (score w3) 1 + 10000 * Score.judges (score w3) 2)
                     div BMS.totalNotes bms
                 + Score.comboBonus (score w4)
             \<and> Score.comboBonus (score w4) = bonus_of (combo (score w3)) (BMS.totalNotes bms)
             \<and> point (score w') = point (score w4)
             \<and> gameover (player w') = 1 \<and> quit (player w') \<noteq> 0))"
    using play_loop_trace [OF loop init(1)]
  proof (elim disjE exE conjE)
    assume "steady W0 w'"
    with init show ?thesis by (simp add: steady_def score_steady_def)
  next
    fix pre frame post w1 w3 w4
    assume d: "frames = pre @ frame # post" "play_loop bms pre W0 = Inr w1"
      "quit (player w1) = 0" "steady W0 w1" "update bms frame w1 = Inr w'"
      "update_notes bms frame w1 = Inr w3" "chart_ended bms frame w3" "steady w1 w3"
      "gameOver w3 = Inr w4" "steady w4 w'"
    have s3: "steady W0 w3" using d(4,8) by (rule steady_trans)
    have w1: "gameover (player w1) = 0" "point (score w1) = 0"
      using d(4) init by (simp_all add: steady_def score_steady_def)
    have w3: "point (score w3) = 0" "\<forall>i. 0 \<le> Score.judges (score w3) i"
      "Score.totalNotes (score w3) = BMS.totalNotes bms"
      using s3 init by (simp_all add: steady_def score_steady_def)
    from gameOver_result [OF d(9) w3(2)] t0 w3(3)
    have g: "0 < BMS.totalNotes bms" "gameover (player w4) = 1" "quit (player w4) = 1"
      "point (score w4) =
         75000 * Score.judges (score w3) 0 div BMS.totalNotes bms
         + (50000 * Score.judges (score w3) 1 + 10000 * Score.judges (score w3) 2)
             div BMS.totalNotes bms
         + Score.comboBonus (score w4)"
      "Score.comboBonus (score w4) = bonus_of (combo (score w3)) (BMS.totalNotes bms)"
      by simp_all
    have w': "point (score w') = point (score w4)" "gameover (player w') = 1"
      "quit (player w') \<noteq> 0"
      using d(10) g(2,3) by (simp_all add: steady_def score_steady_def)
    have rp: "run bms opt start pre = Inr w1" using d(2) by (simp only: run)
    have "\<exists>pre frame post w1 w3 w4.
             frames = pre @ frame # post
             \<and> run bms opt start pre = Inr w1 \<and> quit (player w1) = 0
             \<and> gameover (player w1) = 0 \<and> point (score w1) = 0
             \<and> update bms frame w1 = Inr w'
             \<and> update_notes bms frame w1 = Inr w3 \<and> chart_ended bms frame w3
             \<and> point (score w3) = 0 \<and> gameOver w3 = Inr w4
             \<and> 0 < BMS.totalNotes bms
             \<and> point (score w4) =
                 75000 * Score.judges (score w3) 0 div BMS.totalNotes bms
                 + (50000 * Score.judges (score w3) 1 + 10000 * Score.judges (score w3) 2)
                     div BMS.totalNotes bms
                 + Score.comboBonus (score w4)
             \<and> Score.comboBonus (score w4) = bonus_of (combo (score w3)) (BMS.totalNotes bms)
             \<and> point (score w') = point (score w4)
             \<and> gameover (player w') = 1 \<and> quit (player w') \<noteq> 0"
      using d(1) rp d(3) w1 d(5,6,7) w3(1) d(9) g(1,4,5) w'
      by (intro exI [of _ pre] exI [of _ frame] exI [of _ post] exI [of _ w1] exI [of _ w3]
          exI [of _ w4] conjI)
    with w'(2) show ?thesis by simp
  qed
  from main snoc update_split [of bms f ws] ret show ?thesis by blast
qed

text \<open>
  A chart of one note with a background cue. The key of lane 1 is pressed exactly on the
  note, at second 2, while the cue sounds; one second later the mixer is silent. The
  total is 75000: one cool judgment on one note, and no bonus for a combo of 1.
\<close>

theorem point_computed_at_chart_end_witness:
  "\<exists>bms w'. parseBMS [''#BPM 120'', ''#00001:01'', ''#00111:01''] = Inr bms
     \<and> run bms \<lparr>speed = 1, keyBinds = ''azsxdcfv'', autoPlay = 0\<rparr> 0
          [\<lparr>getTime = 2000, Mix_Playing = 1, getch = 122\<rparr>,
           \<lparr>getTime = 3000, Mix_Playing = 0, getch = - 1\<rparr>] = Inr w'
     \<and> BMS.totalNotes bms = 1 \<and> Score.judges (score w') 0 = 1
     \<and> gameover (player w') = 1 \<and> point (score w') = 75000 \<and> 0 < BMS.totalNotes bms"
proof -
  have "\<exists>bms. parseBMS [''#BPM 120'', ''#00001:01'', ''#00111:01''] = Inr bms
     \<and> BMS.totalNotes bms = 1
     \<and> (\<exists>w'. run bms \<lparr>speed = 1, keyBinds = ''azsxdcfv'', autoPlay = 0\<rparr> 0
          [\<lparr>getTime = 2000, Mix_Playing = 1, getch = 122\<rparr>,
           \<lparr>getTime = 3000, Mix_Playing = 0, getch = - 1\<rparr>] = Inr w'
         \<and> Score.judges (score w') 0 = 1
         \<and> gameover (player w') = 1 \<and> point (score w') = 75000)"
    by (simp add: parse_defs char_defs score_defs session_defs calcChip_scan.simps
        getSegment.simps update_bgm.simps handler_keys.simps upt_rec)
  then obtain bms w' where
    p: "parseBMS [''#BPM 120'', ''#00001:01'', ''#00111:01''] = Inr bms"
    and n: "BMS.totalNotes bms = 1"
    and r: "run bms \<lparr>speed = 1, keyBinds = ''azsxdcfv'', autoPlay = 0\<rparr> 0
          [\<lparr>getTime = 2000, Mix_Playing = 1, getch = 122\<rparr>,
           \<lparr>getTime = 3000, Mix_Playing = 0, getch = - 1\<rparr>] = Inr w'"
    and j: "Score.judges (score w') 0 = 1"
    and g: "gameover (player w') = 1" and pt: "point (score w') = 75000"
    by (elim exE conjE)
  from point_computed_at_chart_end [OF p r] g have "0 < BMS.totalNotes bms" by auto
  with p r n j g pt show ?thesis
    by (intro exI [of _ bms] exI [of _ w'] conjI) assumption+
qed

text \<open>
  Claim C2 as stated fails on a chart of 28634 notes that are all judged cool: the total
  of the claim would be \<open>75000 + bonus\<close>, but the product \<open>75000 * 28634 = 2147550000\<close>
  that the code forms before it divides is beyond \<^verbatim>\<open>INT_MAX\<close>.
\<close>

theorem point_total_overflows_int:
  "gameOver \<lparr>player = Player_zero, option = \<lparr>speed = 1, keyBinds = ''azsxdcfv'', autoPlay = 0\<rparr>,
      score = \<lparr>Score.judges = (\<lambda>_. 0)(0 := 28634), combo = 28634, Score.comboBonus = 0,
               maxCombo = 0, point = 0, totalJudges = 28634, Score.totalNotes = 28634\<rparr>,
      lastHandledTime = 0, mixer = []\<rparr> = Inl SignedOverflow
   \<and> \<not> int_range (75000 * 28634)"
  by (simp add: score_defs session_defs bindF_def int_range_def Let_def)

end
